theory Spec2Isabelle
  imports Main "HOL-Library.Sublist"
begin

section \<open>The consistency proxy: \<^verbatim>\<open>createLanguageService\<close> (worker.ts, lines 10-99)\<close>

text \<open>
  Every function-valued member of the language service is wrapped by the asynchronous
  arrow function of lines 50-96. JavaScript runs one such call until its next
  \<^verbatim>\<open>await\<close>, so a call is modelled by the place where it is suspended together with
  the local variables that are live there, and the proxy by a step function: one step
  is what happens between two suspension points.

  Engine instances (the values \<^verbatim>\<open>_createLanguageService\<close> returns) are opaque; they are
  named by the order of their creation, instance \<open>0\<close> being the one of line 25.
  What an operation returns or throws is chosen by the environment, as are the moment
  at which the declaration host's version grows and whether a call of the factory
  (line 69) or of \<^verbatim>\<open>dispose\<close> (line 90) returns or throws.
\<close>

datatype ('r, 'e) outcome = Returned 'r | Thrown 'e

datatype ('r, 'e) pc =
    AwaitOldVersion
      \<comment> \<open>line 60: suspended in \<^verbatim>\<open>await options.dtsHost.getVersion()\<close>\<close>
  | AwaitResult nat nat
      \<comment> \<open>lines 61 and 80: the operation was invoked on this instance; \<^verbatim>\<open>oldVersion\<close>\<close>
  | AwaitNewVersion nat 'r
      \<comment> \<open>lines 62 and 81: \<^verbatim>\<open>oldVersion\<close> and \<^verbatim>\<open>result\<close>\<close>
  | AwaitBare nat
      \<comment> \<open>line 53: no declaration host; the operation was invoked on this instance\<close>
  | Settled "('r, 'e) outcome"
      \<comment> \<open>the promise of the wrapper is fulfilled (line 95, line 53) or rejected\<close>

text \<open>What a call has observed so far, in order (not a variable of the program).\<close>

datatype ('r, 'e) observation =
    ReadVersion nat
  | VersionFailed 'e
  | Invoked nat
  | Completed "('r, 'e) outcome"
  | FactoryFailed 'e
  | DisposeFailed nat 'e

record ('r, 'e) frame =
  pc :: "('r, 'e) pc"
  began :: nat
  history :: "('r, 'e) observation list"

text \<open>
  The variables of the closure: \<^verbatim>\<open>languageService\<close> (line 25), \<^verbatim>\<open>dtsVersion\<close>,
  \<^verbatim>\<open>runningApis\<close> (lines 35-36) and \<^verbatim>\<open>toClear\<close> (line 38, a set in insertion order).
  \<open>built\<close> lists, for every instance created so far, the host version at its creation;
  \<open>disposed\<close> lists the calls of \<^verbatim>\<open>dispose\<close> in order; \<open>world\<close> is the number the
  host's \<^verbatim>\<open>getVersion\<close> resolves to; \<open>began\<close> of a frame is that number when the call
  was made.
\<close>

record ('r, 'e) proxy =
  languageService :: nat
  built :: "nat list"
  dtsVersion :: nat
  runningApis :: int
  toClear :: "nat list"
  disposed :: "nat list"
  frames :: "('r, 'e) frame list"
  world :: nat

definition init :: "nat \<Rightarrow> ('r, 'e) proxy" where
  "init w = \<lparr> languageService = 0, built = [w], dtsVersion = 0, runningApis = 0,
              toClear = [], disposed = [], frames = [], world = w \<rparr>"

datatype ('r, 'e) event =
    Resolve
      \<comment> \<open>a declaration resolves: the host's version grows by one\<close>
  | Call
      \<comment> \<open>a caller invokes a wrapped operation\<close>
  | VersionSettles nat
      \<comment> \<open>the \<^verbatim>\<open>getVersion()\<close> awaited by this call is fulfilled, and every call of
          \<^verbatim>\<open>_createLanguageService\<close> and of \<^verbatim>\<open>dispose\<close> made before the next suspension returns\<close>
  | VersionRejects nat 'e
      \<comment> \<open>the \<^verbatim>\<open>getVersion()\<close> awaited by this call is rejected\<close>
  | OpSettles nat "('r, 'e) outcome"
      \<comment> \<open>the engine operation awaited by this call returns or throws\<close>
  | FactoryThrows nat 'e
      \<comment> \<open>the \<^verbatim>\<open>getVersion()\<close> awaited by this call is fulfilled with a version that is
          neither \<^verbatim>\<open>oldVersion\<close> nor \<^verbatim>\<open>dtsVersion\<close>, and \<^verbatim>\<open>_createLanguageService\<close> (line 69) throws\<close>
  | DisposeThrows nat nat 'e
      \<comment> \<open>the \<^verbatim>\<open>getVersion()\<close> awaited by this call is fulfilled with \<^verbatim>\<open>oldVersion\<close>, no other
          call is in flight, and \<^verbatim>\<open>dispose()\<close> (line 90) throws on the entry of \<^verbatim>\<open>toClear\<close>
          at this position\<close>

definition suspend ::
  "nat \<Rightarrow> ('r, 'e) pc \<Rightarrow> ('r, 'e) observation list \<Rightarrow> ('r, 'e) proxy \<Rightarrow> ('r, 'e) proxy" where
  "suspend c p obs s =
     s\<lparr> frames := (frames s)[c := (frames s ! c)\<lparr> pc := p, history := history (frames s ! c) @ obs \<rparr>] \<rparr>"

text \<open>
  Lines 67-78: \<^verbatim>\<open>dtsVersion = newVersion; toClear.add(languageService); languageService =
  _createLanguageService(...)\<close>. The factory is an external collaborator: \<open>thrown\<close> says
  whether its call returns (\<open>None\<close>) or throws. The two assignments before the call have
  taken place in either case; \<^verbatim>\<open>languageService\<close> is assigned only when the call returns.
\<close>

definition rebuild :: "nat \<Rightarrow> 'e option \<Rightarrow> ('r, 'e) proxy \<Rightarrow> ('r, 'e) proxy" where
  "rebuild newVersion thrown s =
     (let s1 = s\<lparr> dtsVersion := newVersion,
                   toClear := (if languageService s \<in> set (toClear s) then toClear s
                               else toClear s @ [languageService s]) \<rparr>
      in case thrown of
           None \<Rightarrow> s1\<lparr> languageService := length (built s), built := built s @ [world s] \<rparr>
         | Some x \<Rightarrow> s1)"

text \<open>Line 85, the \<^verbatim>\<open>finally\<close> block.\<close>

definition leave :: "('r, 'e) proxy \<Rightarrow> ('r, 'e) proxy" where
  "leave s = s\<lparr> runningApis := runningApis s - 1 \<rparr>"

text \<open>
  Lines 88-93. \<open>thrown\<close> says whether every \<^verbatim>\<open>dispose()\<close> returns (\<open>None\<close>) or the call on
  the entry at position \<open>k\<close> throws: then the entries up to that one have been passed to
  \<^verbatim>\<open>dispose\<close>, the loop is left, and \<^verbatim>\<open>toClear.clear()\<close> (line 92) is not reached.
\<close>

definition clear :: "(nat \<times> 'e) option \<Rightarrow> ('r, 'e) proxy \<Rightarrow> ('r, 'e) proxy" where
  "clear thrown s =
     (if runningApis s = 0 \<and> 0 < length (toClear s)
      then (case thrown of
              None \<Rightarrow> s\<lparr> disposed := disposed s @ toClear s, toClear := [] \<rparr>
            | Some (k, x) \<Rightarrow> s\<lparr> disposed := disposed s @ take (Suc k) (toClear s) \<rparr>)
      else s)"

text \<open>
  Lines 64-82 and 84-95, entered with a freshly read \<^verbatim>\<open>newVersion\<close>, up to the next
  suspension or the end of the call. \<open>factory\<close> and \<open>dispose\<close> say whether the factory call
  and the \<^verbatim>\<open>dispose\<close> calls made on the way return or throw. When the factory throws
  (inside the \<^verbatim>\<open>try\<close>), the \<^verbatim>\<open>finally\<close> block runs and the call is rejected; when
  \<^verbatim>\<open>dispose\<close> throws (after the \<^verbatim>\<open>finally\<close> block), the call is rejected and line 95 is
  not reached.
\<close>

definition loop ::
  "nat \<Rightarrow> nat \<Rightarrow> 'r \<Rightarrow> nat \<Rightarrow> 'e option \<Rightarrow> (nat \<times> 'e) option \<Rightarrow>
   ('r, 'e) proxy \<Rightarrow> ('r, 'e) proxy" where
  "loop c oldVersion result newVersion factory dispose s =
     (if newVersion \<noteq> oldVersion
      then (if newVersion \<noteq> dtsVersion s
            then (case factory of
                    None \<Rightarrow>
                      let s1 = rebuild newVersion None s
                      in suspend c (AwaitResult (languageService s1) newVersion)
                           [ReadVersion newVersion, Invoked (languageService s1)] s1
                  | Some x \<Rightarrow>
                      suspend c (Settled (Thrown x)) [ReadVersion newVersion, FactoryFailed x]
                        (leave (rebuild newVersion (Some x) s)))
            else suspend c (AwaitResult (languageService s) newVersion)
                   [ReadVersion newVersion, Invoked (languageService s)] s)
      else (case dispose of
              None \<Rightarrow>
                suspend c (Settled (Returned result)) [ReadVersion newVersion]
                  (clear None (leave s))
            | Some (k, x) \<Rightarrow>
                suspend c (Settled (Thrown x)) [ReadVersion newVersion, DisposeFailed k x]
                  (clear (Some (k, x)) (leave s))))"

text \<open>
  One step. \<open>VersionSettles\<close> is the step in which every factory and \<^verbatim>\<open>dispose\<close> call
  returns; \<open>FactoryThrows\<close> and \<open>DisposeThrows\<close> are possible only where the call in question
  is made: the version read differs from \<^verbatim>\<open>oldVersion\<close> and from \<^verbatim>\<open>dtsVersion\<close> (line 66),
  respectively the loop is left, \<^verbatim>\<open>runningApis\<close> has come to zero and \<^verbatim>\<open>toClear\<close> has an
  entry at the position (line 88).
\<close>

fun step :: "bool \<Rightarrow> ('r, 'e) proxy \<Rightarrow> ('r, 'e) event \<Rightarrow> ('r, 'e) proxy option" where
  "step dtsHost s Resolve = Some (s\<lparr> world := Suc (world s) \<rparr>)"
| "step dtsHost s Call =
     Some (if \<not> dtsHost
           then s\<lparr> frames := frames s @
                  [\<lparr> pc = AwaitBare (languageService s), began = world s,
                     history = [Invoked (languageService s)] \<rparr>] \<rparr>
           else s\<lparr> runningApis := runningApis s + 1,
                   frames := frames s @
                  [\<lparr> pc = AwaitOldVersion, began = world s, history = [] \<rparr>] \<rparr>)"
| "step dtsHost s (VersionSettles c) =
     (if c < length (frames s)
      then (case pc (frames s ! c) of
              AwaitOldVersion \<Rightarrow>
                Some (suspend c (AwaitResult (languageService s) (world s))
                        [ReadVersion (world s), Invoked (languageService s)] s)
            | AwaitNewVersion oldVersion result \<Rightarrow>
                Some (loop c oldVersion result (world s) None None s)
            | _ \<Rightarrow> None)
      else None)"
| "step dtsHost s (VersionRejects c x) =
     (if c < length (frames s)
      then (case pc (frames s ! c) of
              AwaitOldVersion \<Rightarrow>
                Some (suspend c (Settled (Thrown x)) [VersionFailed x] (leave s))
            | AwaitNewVersion oldVersion result \<Rightarrow>
                Some (suspend c (Settled (Thrown x)) [VersionFailed x] (leave s))
            | _ \<Rightarrow> None)
      else None)"
| "step dtsHost s (OpSettles c out) =
     (if c < length (frames s)
      then (case pc (frames s ! c) of
              AwaitResult e oldVersion \<Rightarrow>
                (case out of
                   Returned r \<Rightarrow>
                     Some (suspend c (AwaitNewVersion oldVersion r) [Completed out] s)
                 | Thrown x \<Rightarrow>
                     Some (suspend c (Settled (Thrown x)) [Completed out] (leave s)))
            | AwaitBare e \<Rightarrow> Some (suspend c (Settled out) [Completed out] s)
            | _ \<Rightarrow> None)
      else None)"
| "step dtsHost s (FactoryThrows c x) =
     (if c < length (frames s)
      then (case pc (frames s ! c) of
              AwaitNewVersion oldVersion result \<Rightarrow>
                if world s \<noteq> oldVersion \<and> world s \<noteq> dtsVersion s
                then Some (loop c oldVersion result (world s) (Some x) None s)
                else None
            | _ \<Rightarrow> None)
      else None)"
| "step dtsHost s (DisposeThrows c k x) =
     (if c < length (frames s)
      then (case pc (frames s ! c) of
              AwaitNewVersion oldVersion result \<Rightarrow>
                if world s = oldVersion \<and> runningApis (leave s) = 0 \<and> k < length (toClear s)
                then Some (loop c oldVersion result (world s) None (Some (k, x)) s)
                else None
            | _ \<Rightarrow> None)
      else None)"

fun run :: "bool \<Rightarrow> ('r, 'e) proxy \<Rightarrow> ('r, 'e) event list \<Rightarrow> ('r, 'e) proxy option" where
  "run dtsHost s [] = Some s"
| "run dtsHost s (ev # evs) =
     (case step dtsHost s ev of None \<Rightarrow> None | Some s' \<Rightarrow> run dtsHost s' evs)"

text \<open>The events in which neither the factory nor \<^verbatim>\<open>dispose\<close> throws.\<close>

fun calm :: "('r, 'e) event \<Rightarrow> bool" where
  "calm (FactoryThrows c x) = False"
| "calm (DisposeThrows c k x) = False"
| "calm ev = True"

fun factory_returns :: "('r, 'e) event \<Rightarrow> bool" where
  "factory_returns (FactoryThrows c x) = False"
| "factory_returns ev = True"

definition in_flight :: "('r, 'e) frame \<Rightarrow> bool" where
  "in_flight f = (case pc f of AwaitOldVersion \<Rightarrow> True | AwaitResult e v \<Rightarrow> True
                  | AwaitNewVersion v r \<Rightarrow> True | AwaitBare e \<Rightarrow> False | Settled out \<Rightarrow> False)"

definition engines_ok :: "('r, 'e) proxy \<Rightarrow> bool" where
  "engines_ok s =
     (length (built s) = Suc (languageService s) \<and>
      distinct (toClear s @ disposed s) \<and>
      (\<forall>e \<in> set (toClear s @ disposed s). e < languageService s))"

definition counter_ok :: "('r, 'e) proxy \<Rightarrow> bool" where
  "counter_ok s = (runningApis s = int (length (filter in_flight (frames s))))"

definition executing_ok :: "('r, 'e) proxy \<Rightarrow> bool" where
  "executing_ok s =
     (\<forall>f \<in> set (frames s). \<forall>e v. pc f = AwaitResult e v \<longrightarrow>
        e \<notin> set (disposed s) \<and> e \<le> languageService s)"

definition inv :: "('r, 'e) proxy \<Rightarrow> bool" where
  "inv s = (engines_ok s \<and> counter_ok s \<and> executing_ok s)"

text \<open>
  \<open>executed q w b f pre e v\<close>: what is known of the execution on instance \<open>e\<close> that a call
  \<open>f\<close> started after it read version \<open>v\<close>, \<open>pre\<close> being what the call had observed before
  that read, \<open>w\<close> the host's version and \<open>b\<close> the list \<open>built\<close>. The version was read after
  the call began; when the execution is a re-execution (\<open>pre\<close> is not empty) and no factory
  call has thrown so far (\<open>q\<close>), the instance was built at version \<open>v\<close>.
\<close>

definition executed ::
  "bool \<Rightarrow> nat \<Rightarrow> nat list \<Rightarrow> ('r, 'e) frame \<Rightarrow> ('r, 'e) observation list \<Rightarrow> nat \<Rightarrow> nat \<Rightarrow> bool" where
  "executed q w b f pre e v =
     (began f \<le> v \<and> v \<le> w \<and> e < length b \<and> (q \<and> pre \<noteq> [] \<longrightarrow> b ! e = v))"

definition history_ok ::
  "bool \<Rightarrow> bool \<Rightarrow> nat \<Rightarrow> nat list \<Rightarrow> ('r, 'e) frame \<Rightarrow> bool" where
  "history_ok d q w b f =
     (began f \<le> w \<and>
      (case pc f of
        AwaitOldVersion \<Rightarrow> d \<and> history f = []
      | AwaitResult e v \<Rightarrow>
          d \<and> (\<exists>pre. history f = pre @ [ReadVersion v, Invoked e] \<and> executed q w b f pre e v)
      | AwaitNewVersion v r \<Rightarrow>
          d \<and> (\<exists>pre e. history f = pre @ [ReadVersion v, Invoked e, Completed (Returned r)] \<and>
                        executed q w b f pre e v)
      | AwaitBare e \<Rightarrow> \<not> d \<and> history f = [Invoked e]
      | Settled out \<Rightarrow>
          (if d
           then (case out of
                   Returned r \<Rightarrow>
                     (\<exists>pre v e. history f =
                        pre @ [ReadVersion v, Invoked e, Completed (Returned r), ReadVersion v] \<and>
                        executed q w b f pre e v)
                 | Thrown x \<Rightarrow> True)
           else (\<exists>e. history f = [Invoked e, Completed out]))))"

text \<open>
  The current instance was built at \<^verbatim>\<open>dtsVersion\<close>, or \<^verbatim>\<open>dtsVersion\<close> still has its initial
  value: this is what a factory call that throws destroys (\<open>q\<close> says that none has).
\<close>

definition histories_ok :: "bool \<Rightarrow> bool \<Rightarrow> ('r, 'e) proxy \<Rightarrow> bool" where
  "histories_ok d q s =
     ((\<forall>f \<in> set (frames s). history_ok d q (world s) (built s) f) \<and>
      languageService s < length (built s) \<and>
      built s ! languageService s \<le> world s \<and>
      (q \<longrightarrow> built s ! languageService s = dtsVersion s \<or> dtsVersion s = 0))"

fun last_invoked :: "('r, 'e) observation list \<Rightarrow> nat option" where
  "last_invoked [] = None"
| "last_invoked (ob # obs) =
     (case last_invoked obs of
        Some e \<Rightarrow> Some e
      | None \<Rightarrow> (case ob of Invoked e \<Rightarrow> Some e | _ \<Rightarrow> None))"

definition never_stale :: "('r, 'e) proxy \<Rightarrow> bool" where
  "never_stale s =
     (\<forall>f \<in> set (frames s). \<forall>r e.
        pc f = Settled (Returned r) \<and> last_invoked (history f) = Some e \<longrightarrow>
        began f \<le> built s ! e)"

definition stale_trace :: "(nat, unit) event list" where
  "stale_trace =
     [Call, VersionSettles 0, OpSettles 0 (Thrown ()), Resolve,
      Call, VersionSettles 1, OpSettles 1 (Returned 7), VersionSettles 1]"

definition error_trace :: "(nat, string) event list" where
  "error_trace = [Call, VersionSettles 0]"

definition supersedes :: "('r, 'e) proxy \<Rightarrow> ('r, 'e) proxy \<Rightarrow> bool" where
  "supersedes s s' =
     (languageService s \<in> set (toClear s') \<and>
      languageService s' = length (built s) \<and>
      built s' = built s @ [world s])"

definition shared_trace :: "(nat, unit) event list" where
  "shared_trace =
     [Call, Call, VersionSettles 0, VersionSettles 1,
      OpSettles 0 (Returned 5), OpSettles 1 (Returned 6), Resolve, VersionSettles 0]"

definition dispose_throws_trace :: "(nat, string) event list" where
  "dispose_throws_trace =
     [Call, VersionSettles 0, OpSettles 0 (Returned 1), Resolve,
      VersionSettles 0, OpSettles 0 (Returned 2), DisposeThrows 0 0 ''boom'',
      Call, VersionSettles 1, OpSettles 1 (Returned 3), VersionSettles 1]"

definition factory_throws_trace :: "(nat, string) event list" where
  "factory_throws_trace =
     [Call, VersionSettles 0, OpSettles 0 (Returned 1), Resolve, FactoryThrows 0 ''boom'',
      Call, VersionSettles 1, OpSettles 1 (Returned 2), VersionSettles 1]"

definition stale_retry_trace :: "(nat, unit) event list" where
  "stale_retry_trace =
     [Resolve, Call, Call, VersionSettles 0, VersionSettles 1,
      OpSettles 0 (Returned 5), OpSettles 1 (Returned 6), Resolve, FactoryThrows 0 (),
      VersionSettles 1, OpSettles 1 (Returned 8), VersionSettles 1]"

definition rerun_trace :: "(nat, unit) event list" where
  "rerun_trace =
     [Call, VersionSettles 0, OpSettles 0 (Returned 1), Resolve,
      VersionSettles 0, OpSettles 0 (Returned 2), VersionSettles 0]"

definition bare_ok :: "nat \<Rightarrow> ('r, 'e) proxy \<Rightarrow> bool" where
  "bare_ok w s =
     (languageService s = 0 \<and> built s = [w] \<and> dtsVersion s = 0 \<and> runningApis s = 0 \<and>
      toClear s = [] \<and> disposed s = [] \<and>
      (\<forall>f \<in> set (frames s).
         (pc f = AwaitBare 0 \<and> history f = [Invoked 0]) \<or>
         (\<exists>out. pc f = Settled out \<and> history f = [Invoked 0, Completed out])))"

definition bare_trace :: "(nat, string) event list" where
  "bare_trace = [Call, Resolve, Call, OpSettles 1 (Thrown ''boom''), OpSettles 0 (Returned 3)]"

subsection \<open>Invariants of the proxy\<close>

lemma run_append:
  "run d s (xs @ ys) = (case run d s xs of None \<Rightarrow> None | Some s' \<Rightarrow> run d s' ys)"
  by (induction xs arbitrary: s) (auto split: option.splits)

lemma filter_update_count:
  "c < length xs \<Longrightarrow>
   int (length (filter P (xs[c := y]))) =
     int (length (filter P xs)) - (if P (xs ! c) then 1 else 0) + (if P y then 1 else 0)"
proof (induction xs arbitrary: c)
  case Nil
  then show ?case by simp
next
  case (Cons x xs)
  show ?case
  proof (cases c)
    case 0
    then show ?thesis by simp
  next
    case (Suc n)
    with Cons.prems have "n < length xs" by simp
    from Cons.IH[OF this] Suc show ?thesis by (simp split: if_splits)
  qed
qed

lemma suspend_simps [simp]:
  "languageService (suspend c p obs s) = languageService s"
  "built (suspend c p obs s) = built s"
  "dtsVersion (suspend c p obs s) = dtsVersion s"
  "runningApis (suspend c p obs s) = runningApis s"
  "toClear (suspend c p obs s) = toClear s"
  "disposed (suspend c p obs s) = disposed s"
  "world (suspend c p obs s) = world s"
  "frames (suspend c p obs s) =
     (frames s)[c := (frames s ! c)\<lparr> pc := p, history := history (frames s ! c) @ obs \<rparr>]"
  by (simp_all add: suspend_def)

lemma leave_simps [simp]:
  "languageService (leave s) = languageService s"
  "built (leave s) = built s"
  "dtsVersion (leave s) = dtsVersion s"
  "runningApis (leave s) = runningApis s - 1"
  "toClear (leave s) = toClear s"
  "disposed (leave s) = disposed s"
  "world (leave s) = world s"
  "frames (leave s) = frames s"
  by (simp_all add: leave_def)

lemma clear_simps [simp]:
  "languageService (clear t s) = languageService s"
  "built (clear t s) = built s"
  "dtsVersion (clear t s) = dtsVersion s"
  "runningApis (clear t s) = runningApis s"
  "world (clear t s) = world s"
  "frames (clear t s) = frames s"
  by (simp_all add: clear_def split: option.splits)

lemma rebuild_simps [simp]:
  "languageService (rebuild v None s) = length (built s)"
  "built (rebuild v None s) = built s @ [world s]"
  "languageService (rebuild v (Some x) s) = languageService s"
  "built (rebuild v (Some x) s) = built s"
  "dtsVersion (rebuild v t s) = v"
  "runningApis (rebuild v t s) = runningApis s"
  "disposed (rebuild v t s) = disposed s"
  "world (rebuild v t s) = world s"
  "frames (rebuild v t s) = frames s"
  "set (toClear (rebuild v t s)) = insert (languageService s) (set (toClear s))"
  by (auto simp: rebuild_def Let_def split: option.splits)

lemma distinct_toClear_rebuild:
  "distinct (toClear (rebuild v t s)) = distinct (toClear s)"
  by (simp add: rebuild_def Let_def split: option.splits)

lemma loop_throws:
  "n \<noteq> v \<Longrightarrow> n \<noteq> dtsVersion s \<Longrightarrow>
   loop c v r n (Some x) t s =
     suspend c (Settled (Thrown x)) [ReadVersion n, FactoryFailed x] (leave (rebuild n (Some x) s))"
  "loop c v r v u (Some (k, x)) s =
     suspend c (Settled (Thrown x)) [ReadVersion v, DisposeFailed k x] (clear (Some (k, x)) (leave s))"
  by (simp_all add: loop_def)

lemma engines_ok_suspend [simp]: "engines_ok (suspend c p obs s) = engines_ok s"
  by (simp add: engines_ok_def)

lemma engines_ok_leave [simp]: "engines_ok (leave s) = engines_ok s"
  by (simp add: engines_ok_def)

lemma engines_ok_clear: "engines_ok s \<Longrightarrow> engines_ok (clear None s)"
  by (auto simp: engines_ok_def clear_def)

lemma engines_ok_rebuild:
  assumes "engines_ok s"
  shows "engines_ok (rebuild v None s)"
proof -
  from assms have a: "length (built s) = Suc (languageService s)"
    and b: "distinct (toClear s)" "distinct (disposed s)"
           "set (toClear s) \<inter> set (disposed s) = {}"
    and c: "\<forall>e \<in> set (toClear s) \<union> set (disposed s). e < languageService s"
    by (auto simp: engines_ok_def)
  from c have d: "languageService s \<notin> set (disposed s)" by auto
  from a b c d show ?thesis
    by (auto simp: engines_ok_def distinct_toClear_rebuild less_Suc_eq)
qed

lemma engines_ok_loop: "engines_ok s \<Longrightarrow> engines_ok (loop c v r n None None s)"
  by (simp add: loop_def Let_def engines_ok_clear engines_ok_rebuild)

lemma engines_ok_step:
  assumes "engines_ok s" "step d s ev = Some s'" "calm ev"
  shows "engines_ok s'"
proof (cases ev)
  case Resolve
  with assms show ?thesis by (auto simp: engines_ok_def)
next
  case Call
  with assms show ?thesis by (cases d) (auto simp: engines_ok_def)
next
  case (VersionSettles c)
  with assms show ?thesis
    by (auto simp: engines_ok_loop split: if_splits pc.splits)
next
  case (VersionRejects c x)
  with assms show ?thesis
    by (auto split: if_splits pc.splits)
next
  case (OpSettles c out)
  with assms show ?thesis
    by (auto split: if_splits pc.splits outcome.splits)
qed (use assms in simp_all)

lemma in_flight_update [simp]:
  "in_flight (f\<lparr> pc := p, history := h \<rparr>) =
     (case p of AwaitOldVersion \<Rightarrow> True | AwaitResult e v \<Rightarrow> True
      | AwaitNewVersion v r \<Rightarrow> True | AwaitBare e \<Rightarrow> False | Settled out \<Rightarrow> False)"
  by (simp add: in_flight_def)

lemma counter_ok_suspend:
  assumes "counter_ok s" "c < length (frames s)"
  shows "counter_ok (suspend c p obs s) =
           (in_flight (frames s ! c) = in_flight \<lparr> pc = p, began = 0, history = [] \<rparr>)"
  using assms by (simp add: counter_ok_def filter_update_count in_flight_def split: pc.splits)

lemma counter_ok_suspend_leave:
  assumes "counter_ok s" "c < length (frames s)" "in_flight (frames s ! c)"
  shows "counter_ok (suspend c (Settled out) obs (leave s))"
  using assms by (simp add: counter_ok_def filter_update_count)

lemma counter_ok_suspend_clear_leave:
  assumes "counter_ok s" "c < length (frames s)" "in_flight (frames s ! c)"
  shows "counter_ok (suspend c (Settled out) obs (clear t (leave s)))"
  using assms by (simp add: counter_ok_def filter_update_count)

lemma counter_ok_rebuild [simp]: "counter_ok (rebuild v t s) = counter_ok s"
  by (simp add: counter_ok_def)

lemma counter_ok_step:
  assumes "counter_ok s" "step d s ev = Some s'"
  shows "counter_ok s'"
proof (cases ev)
  case Resolve
  with assms show ?thesis by (auto simp: counter_ok_def)
next
  case Call
  with assms show ?thesis by (cases d) (auto simp: counter_ok_def in_flight_def)
next
  case (VersionSettles c)
  with assms show ?thesis
    by (auto simp: counter_ok_suspend counter_ok_suspend_clear_leave loop_def Let_def in_flight_def
             split: if_splits pc.splits)
next
  case (VersionRejects c x)
  with assms show ?thesis
    by (auto simp: counter_ok_suspend_leave in_flight_def split: if_splits pc.splits)
next
  case (OpSettles c out)
  with assms show ?thesis
    by (auto simp: counter_ok_suspend counter_ok_suspend_leave in_flight_def
             split: if_splits pc.splits outcome.splits)
next
  case (FactoryThrows c x)
  with assms show ?thesis
    by (auto simp: counter_ok_suspend_leave in_flight_def loop_throws split: if_splits pc.splits)
next
  case (DisposeThrows c k x)
  with assms show ?thesis
    by (auto simp: counter_ok_suspend_clear_leave in_flight_def loop_throws
             split: if_splits pc.splits)
qed

lemma sole_in_flight:
  assumes "int (length (filter P xs)) = 1" "c < length xs" "P (xs ! c)" "\<not> P y"
  shows "\<forall>f \<in> set (xs[c := y]). \<not> P f"
proof -
  from assms have "length (filter P (xs[c := y])) = 0"
    using filter_update_count[of c xs P y] by simp
  then show ?thesis by (simp add: filter_empty_conv)
qed

lemma executing_ok_suspend:
  assumes "executing_ok s" "c < length (frames s)"
    and "\<And>e v. p = AwaitResult e v \<Longrightarrow> e \<notin> set (disposed s) \<and> e \<le> languageService s"
  shows "executing_ok (suspend c p obs s)"
  unfolding executing_ok_def
proof (intro ballI allI impI)
  fix f e v
  assume f: "f \<in> set (frames (suspend c p obs s))" and pc: "pc f = AwaitResult e v"
  from f have "f = (frames s ! c)\<lparr> pc := p, history := history (frames s ! c) @ obs \<rparr>
               \<or> f \<in> set (frames s)"
    using set_update_subset_insert[of "frames s" c] by auto
  then show "e \<notin> set (disposed (suspend c p obs s)) \<and> e \<le> languageService (suspend c p obs s)"
  proof
    assume "f = (frames s ! c)\<lparr> pc := p, history := history (frames s ! c) @ obs \<rparr>"
    with pc have "p = AwaitResult e v" by simp
    with assms(3) show ?thesis by simp
  next
    assume "f \<in> set (frames s)"
    with assms(1) pc show ?thesis by (simp add: executing_ok_def)
  qed
qed

lemma executing_ok_suspend_other:
  assumes "executing_ok s" "c < length (frames s)" "\<forall>e v. p \<noteq> AwaitResult e v"
  shows "executing_ok (suspend c p obs s)"
  using assms by (intro executing_ok_suspend) auto

lemma executing_ok_suspend_current:
  assumes "executing_ok s" "engines_ok s" "c < length (frames s)"
  shows "executing_ok (suspend c (AwaitResult (languageService s) v) obs s)"
  using assms by (intro executing_ok_suspend) (auto simp: engines_ok_def)

lemma executing_ok_leave [simp]: "executing_ok (leave s) = executing_ok s"
  by (simp add: executing_ok_def)

lemma executing_ok_rebuild:
  assumes "executing_ok s" "engines_ok s"
  shows "executing_ok (rebuild v None s)"
  using assms by (fastforce simp: executing_ok_def engines_ok_def)

lemma current_not_disposed: "engines_ok s \<Longrightarrow> languageService s \<notin> set (disposed s)"
  by (auto simp: engines_ok_def)

lemma executing_ok_return:
  assumes "executing_ok s" "counter_ok s" "c < length (frames s)" "in_flight (frames s ! c)"
  shows "executing_ok (suspend c (Settled out) obs (clear None (leave s)))"
proof (cases "runningApis s = 1")
  case True
  with assms(2) have "int (length (filter in_flight (frames s))) = 1"
    by (simp add: counter_ok_def)
  from sole_in_flight[OF this assms(3,4), of "(frames s ! c)\<lparr> pc := Settled out, history := history (frames s ! c) @ obs \<rparr>"]
  have "\<forall>f \<in> set (frames (suspend c (Settled out) obs (clear None (leave s)))). \<not> in_flight f"
    by simp
  then show ?thesis
    by (auto simp: executing_ok_def in_flight_def)
next
  case False
  then have "clear None (leave s) = leave s"
    by (simp add: clear_def)
  with assms(1,3) show ?thesis
    by (simp add: executing_ok_suspend_other)
qed

lemma executing_ok_step:
  assumes "executing_ok s" "engines_ok s" "counter_ok s" "step d s ev = Some s'" "calm ev"
  shows "executing_ok s'"
proof (cases ev)
  case Resolve
  with assms show ?thesis by (auto simp: executing_ok_def)
next
  case Call
  with assms show ?thesis by (cases d) (auto simp: executing_ok_def)
next
  case (VersionSettles c)
  show ?thesis
  proof (cases "pc (frames s ! c)")
    case AwaitOldVersion
    with assms VersionSettles show ?thesis
      by (auto simp: executing_ok_suspend_current split: if_splits)
  next
    case (AwaitNewVersion v r)
    with assms VersionSettles have c: "c < length (frames s)" and s': "s' = loop c v r (world s) None None s"
      by (auto split: if_splits)
    from AwaitNewVersion have fl: "in_flight (frames s ! c)" by (simp add: in_flight_def)
    show ?thesis
    proof (cases "world s = v")
      case True
      with s' executing_ok_return[OF assms(1,3) c fl] show ?thesis by (simp add: loop_def)
    next
      case False
      have "executing_ok (suspend c (AwaitResult (languageService s1) (world s)) obs s1)"
        if "s1 = s \<or> s1 = rebuild (world s) None s" for s1 obs
      proof (rule executing_ok_suspend_current)
        from that assms(1,2) show "executing_ok s1" by (auto simp: executing_ok_rebuild)
        from that c show "c < length (frames s1)" by auto
        from that assms(2) show "engines_ok s1" by (auto simp: engines_ok_rebuild)
      qed
      note current = this
      show ?thesis
      proof (cases "world s = dtsVersion s")
        case True
        with current[of s] s' False show ?thesis by (simp add: loop_def)
      next
        case rebuilt: False
        with current[of "rebuild (world s) None s"] s' False show ?thesis
          by (simp add: loop_def Let_def)
      qed
    qed
  qed (use assms VersionSettles in \<open>auto split: if_splits\<close>)
next
  case (VersionRejects c x)
  with assms show ?thesis
    by (auto simp: executing_ok_suspend_other split: if_splits pc.splits)
next
  case (OpSettles c out)
  with assms show ?thesis
    by (auto simp: executing_ok_suspend_other split: if_splits pc.splits outcome.splits)
qed (use assms in simp_all)

lemma inv_init: "inv (init w)"
  by (simp add: inv_def init_def engines_ok_def counter_ok_def executing_ok_def)

lemma inv_step: "inv s \<Longrightarrow> step d s ev = Some s' \<Longrightarrow> calm ev \<Longrightarrow> inv s'"
  unfolding inv_def using engines_ok_step counter_ok_step executing_ok_step by blast

lemma inv_run: "inv s \<Longrightarrow> run d s evs = Some s' \<Longrightarrow> list_all calm evs \<Longrightarrow> inv s'"
proof (induction evs arbitrary: s)
  case Nil
  then show ?case by simp
next
  case (Cons ev evs)
  then show ?case by (auto split: option.splits dest: inv_step)
qed

lemma counter_ok_run: "counter_ok s \<Longrightarrow> run d s evs = Some s' \<Longrightarrow> counter_ok s'"
proof (induction evs arbitrary: s)
  case Nil
  then show ?case by simp
next
  case (Cons ev evs)
  then show ?case by (auto split: option.splits dest: counter_ok_step)
qed

subsection \<open>What a call has observed\<close>

lemma executed_update [simp]:
  "executed q w b (f\<lparr> pc := p, history := h \<rparr>) pre e v = executed q w b f pre e v"
  by (simp add: executed_def)

lemma executed_mono:
  assumes "executed q w b f pre e v" "w \<le> w'" "q' \<longrightarrow> q"
  shows "executed q' w' (b @ ext) f pre e v"
  using assms by (auto simp: executed_def nth_append)

lemma history_ok_mono:
  assumes "history_ok d q w b f" "w \<le> w'" "q' \<longrightarrow> q"
  shows "history_ok d q' w' (b @ ext) f"
proof -
  note m = executed_mono[OF _ assms(2,3), of b f _ _ _ ext]
  from assms(1,2) have b: "began f \<le> w'" by (simp add: history_ok_def)
  show ?thesis
  proof (cases "pc f")
    case AwaitOldVersion
    with assms(1) b show ?thesis by (simp add: history_ok_def)
  next
    case (AwaitResult e v)
    with assms(1) b m show ?thesis by (fastforce simp: history_ok_def)
  next
    case (AwaitNewVersion v r)
    with assms(1) b m show ?thesis by (fastforce simp: history_ok_def)
  next
    case (AwaitBare e)
    with assms(1) b show ?thesis by (simp add: history_ok_def)
  next
    case (Settled out)
    show ?thesis
    proof (cases out)
      case (Returned r)
      with Settled assms(1) b m show ?thesis by (fastforce simp: history_ok_def)
    next
      case (Thrown x)
      with Settled assms(1) b show ?thesis by (simp add: history_ok_def)
    qed
  qed
qed

lemma histories_ok_suspend:
  assumes "histories_ok d q s" "c < length (frames s)"
    and "frames s1 = frames s" "world s \<le> world s1" "built s1 = built s @ ext" "q' \<longrightarrow> q"
    and "history_ok d q' (world s1) (built s1)
           ((frames s ! c)\<lparr> pc := p, history := history (frames s ! c) @ obs \<rparr>)"
    and "languageService s1 < length (built s1)"
    and "built s1 ! languageService s1 \<le> world s1"
    and "q' \<longrightarrow> built s1 ! languageService s1 = dtsVersion s1 \<or> dtsVersion s1 = 0"
  shows "histories_ok d q' (suspend c p obs s1)"
proof -
  have "history_ok d q' (world s1) (built s1) f" if "f \<in> set (frames (suspend c p obs s1))" for f
  proof -
    from that assms(3)
    have "f = (frames s ! c)\<lparr> pc := p, history := history (frames s ! c) @ obs \<rparr>
               \<or> f \<in> set (frames s)"
      using set_update_subset_insert[of "frames s" c] by auto
    then show ?thesis
    proof
      assume "f = (frames s ! c)\<lparr> pc := p, history := history (frames s ! c) @ obs \<rparr>"
      with assms(7) show ?thesis by simp
    next
      assume "f \<in> set (frames s)"
      with assms(1) have "history_ok d q (world s) (built s) f" by (simp add: histories_ok_def)
      from history_ok_mono[OF this assms(4,6), of ext] assms(5) show ?thesis by simp
    qed
  qed
  with assms(8-10) show ?thesis by (simp add: histories_ok_def)
qed

lemma histories_ok_suspend_same:
  assumes "histories_ok d q s" "c < length (frames s)"
    and "frames s1 = frames s" "world s1 = world s" "built s1 = built s"
    and "languageService s1 = languageService s" "dtsVersion s1 = dtsVersion s"
    and "history_ok d q (world s) (built s)
           ((frames s ! c)\<lparr> pc := p, history := history (frames s ! c) @ obs \<rparr>)"
  shows "histories_ok d q (suspend c p obs s1)"
proof (rule histories_ok_suspend[where ext = "[]", OF assms(1,2,3)])
  from assms(1) have g: "languageService s < length (built s)"
    "built s ! languageService s \<le> world s"
    "q \<longrightarrow> built s ! languageService s = dtsVersion s \<or> dtsVersion s = 0"
    by (simp_all add: histories_ok_def)
  from assms(4) show "world s \<le> world s1" by simp
  from assms(5) show "built s1 = built s @ []" by simp
  show "q \<longrightarrow> q" by simp
  from assms(4,5,8) show "history_ok d q (world s1) (built s1)
           ((frames s ! c)\<lparr> pc := p, history := history (frames s ! c) @ obs \<rparr>)" by simp
  from g assms(5,6) show "languageService s1 < length (built s1)" by simp
  from g assms(4,5,6) show "built s1 ! languageService s1 \<le> world s1" by simp
  from g assms(5,6,7) show "q \<longrightarrow> built s1 ! languageService s1 = dtsVersion s1 \<or> dtsVersion s1 = 0"
    by simp
qed

lemma histories_ok_weaken: "histories_ok d q s \<Longrightarrow> histories_ok d False s"
  using history_ok_mono[of d q _ _ _ _ False "[]"] by (fastforce simp: histories_ok_def)

lemma histories_ok_step:
  assumes "histories_ok d q s" "step d s ev = Some s'"
  shows "histories_ok d (q \<and> factory_returns ev) s'"
proof -
  from assms(1) have g: "languageService s < length (built s)"
    "built s ! languageService s \<le> world s"
    "q \<longrightarrow> built s ! languageService s = dtsVersion s \<or> dtsVersion s = 0"
    and fr: "\<And>f. f \<in> set (frames s) \<Longrightarrow> history_ok d q (world s) (built s) f"
    by (simp_all add: histories_ok_def)
  show ?thesis
  proof (cases ev)
    case Resolve
    with assms(2) have s': "s' = s\<lparr> world := Suc (world s) \<rparr>" by simp
    have "history_ok d q (Suc (world s)) (built s) f" if "f \<in> set (frames s)" for f
      using history_ok_mono[OF fr[OF that], of "Suc (world s)" q "[]"] by simp
    with g s' Resolve show ?thesis by (simp add: histories_ok_def)
  next
    case Call
    have "history_ok True q (world s) (built s) \<lparr> pc = AwaitOldVersion, began = world s, history = [] \<rparr>"
         "history_ok False q (world s) (built s)
            \<lparr> pc = AwaitBare e, began = world s, history = [Invoked e] \<rparr>" for e
      by (simp_all add: history_ok_def)
    with assms g fr Call show ?thesis by (cases d) (auto simp: histories_ok_def)
  next
    case (VersionSettles c)
    with assms(2) have c: "c < length (frames s)" by (auto split: if_splits)
    then have h: "history_ok d q (world s) (built s) (frames s ! c)" by (simp add: fr)
    then have b: "began (frames s ! c) \<le> world s" by (simp add: history_ok_def)
    show ?thesis
    proof (cases "pc (frames s ! c)")
      case AwaitOldVersion
      with assms(2) VersionSettles c
      have s': "s' = suspend c (AwaitResult (languageService s) (world s))
                        [ReadVersion (world s), Invoked (languageService s)] s"
        by simp
      from h AwaitOldVersion have "d" "history (frames s ! c) = []" by (simp_all add: history_ok_def)
      with b g(1) have "history_ok d q (world s) (built s)
          ((frames s ! c)\<lparr> pc := AwaitResult (languageService s) (world s),
             history := history (frames s ! c) @ [ReadVersion (world s), Invoked (languageService s)] \<rparr>)"
        by (simp add: history_ok_def executed_def)
      from histories_ok_suspend_same[OF assms(1) c _ _ _ _ _ this, of s] s' VersionSettles
      show ?thesis by simp
    next
      case (AwaitNewVersion v r)
      with assms(2) VersionSettles c have s': "s' = loop c v r (world s) None None s" by simp
      from h AwaitNewVersion obtain pre e where d: d
        and pre: "history (frames s ! c) = pre @ [ReadVersion v, Invoked e, Completed (Returned r)]"
        and ex: "executed q (world s) (built s) (frames s ! c) pre e v"
        by (auto simp: history_ok_def)
      show ?thesis
      proof (cases "world s = v")
        case True
        from d pre ex b True have "history_ok d q (world s) (built s)
          ((frames s ! c)\<lparr> pc := Settled (Returned r),
             history := history (frames s ! c) @ [ReadVersion v] \<rparr>)"
          by (simp add: history_ok_def)
        from histories_ok_suspend_same[OF assms(1) c _ _ _ _ _ this, of "clear None (leave s)"]
          s' True VersionSettles
        show ?thesis by (simp add: loop_def)
      next
        case False
        let ?obs = "\<lambda>e. [ReadVersion (world s), Invoked e]"
        have shape: "history (frames s ! c) @ ?obs e' =
            (pre @ [ReadVersion v, Invoked e, Completed (Returned r)]) @
            [ReadVersion (world s), Invoked e']" for e'
          by (simp add: pre)
        show ?thesis
        proof (cases "world s = dtsVersion s")
          case True
          from g True have "q \<longrightarrow> built s ! languageService s = world s" by auto
          with b g(1) have "executed q (world s) (built s) (frames s ! c)
              (pre @ [ReadVersion v, Invoked e, Completed (Returned r)]) (languageService s) (world s)"
            by (simp add: executed_def)
          with d b shape have "history_ok d q (world s) (built s)
            ((frames s ! c)\<lparr> pc := AwaitResult (languageService s) (world s),
               history := history (frames s ! c) @ ?obs (languageService s) \<rparr>)"
            unfolding history_ok_def by (auto simp del: append_assoc)
          from histories_ok_suspend_same[OF assms(1) c _ _ _ _ _ this, of s] s' False True
            VersionSettles
          show ?thesis by (simp add: loop_def)
        next
          case rebuilt: False
          let ?s1 = "rebuild (world s) None s"
          have "executed q (world s) (built s @ [world s]) (frames s ! c)
              (pre @ [ReadVersion v, Invoked e, Completed (Returned r)]) (length (built s)) (world s)"
            using b by (simp add: executed_def)
          with d b shape have "history_ok d q (world ?s1) (built ?s1)
            ((frames s ! c)\<lparr> pc := AwaitResult (length (built s)) (world s),
               history := history (frames s ! c) @ ?obs (length (built s)) \<rparr>)"
            unfolding history_ok_def by (auto simp del: append_assoc)
          from histories_ok_suspend[OF assms(1) c _ _ _ _ this, of "[world s]"]
          have "histories_ok d q (suspend c (AwaitResult (length (built s)) (world s))
                   (?obs (length (built s))) ?s1)"
            by simp
          with s' False rebuilt VersionSettles show ?thesis by (simp add: loop_def Let_def)
        qed
      qed
    qed (use assms(2) VersionSettles c in auto)
  next
    case (VersionRejects c x)
    with assms(2) have c: "c < length (frames s)" by (auto split: if_splits)
    then have h: "history_ok d q (world s) (built s) (frames s ! c)" by (simp add: fr)
    from assms(2) VersionRejects c
    have p: "pc (frames s ! c) = AwaitOldVersion \<or> (\<exists>v r. pc (frames s ! c) = AwaitNewVersion v r)"
      and s': "s' = suspend c (Settled (Thrown x)) [VersionFailed x] (leave s)"
      by (auto split: pc.splits)
    from h p have "history_ok d q (world s) (built s)
        ((frames s ! c)\<lparr> pc := Settled (Thrown x),
           history := history (frames s ! c) @ [VersionFailed x] \<rparr>)"
      by (auto simp: history_ok_def)
    from histories_ok_suspend_same[OF assms(1) c _ _ _ _ _ this, of "leave s"] s' VersionRejects
    show ?thesis by simp
  next
    case (OpSettles c out)
    with assms(2) have c: "c < length (frames s)" by (auto split: if_splits)
    then have h: "history_ok d q (world s) (built s) (frames s ! c)" by (simp add: fr)
    show ?thesis
    proof (cases "pc (frames s ! c)")
      case (AwaitResult e v)
      from h AwaitResult obtain pre where d: d
        and pre: "history (frames s ! c) = pre @ [ReadVersion v, Invoked e]"
        and ex: "executed q (world s) (built s) (frames s ! c) pre e v"
        by (auto simp: history_ok_def)
      from h have b: "began (frames s ! c) \<le> world s" by (simp add: history_ok_def)
      show ?thesis
      proof (cases out)
        case (Returned r)
        from d pre ex b have "history_ok d q (world s) (built s)
          ((frames s ! c)\<lparr> pc := AwaitNewVersion v r,
             history := history (frames s ! c) @ [Completed (Returned r)] \<rparr>)"
          by (simp add: history_ok_def)
        from histories_ok_suspend_same[OF assms(1) c _ _ _ _ _ this, of s]
          assms(2) OpSettles c AwaitResult Returned
        show ?thesis by simp
      next
        case (Thrown x)
        from d b have "history_ok d q (world s) (built s)
          ((frames s ! c)\<lparr> pc := Settled (Thrown x),
             history := history (frames s ! c) @ [Completed (Thrown x)] \<rparr>)"
          by (simp add: history_ok_def)
        from histories_ok_suspend_same[OF assms(1) c _ _ _ _ _ this, of "leave s"]
          assms(2) OpSettles c AwaitResult Thrown
        show ?thesis by simp
      qed
    next
      case (AwaitBare e)
      with h have "history_ok d q (world s) (built s)
          ((frames s ! c)\<lparr> pc := Settled out,
             history := history (frames s ! c) @ [Completed out] \<rparr>)"
        by (simp add: history_ok_def)
      from histories_ok_suspend_same[OF assms(1) c _ _ _ _ _ this, of s]
        assms(2) OpSettles c AwaitBare
      show ?thesis by simp
    qed (use assms(2) OpSettles c in auto)
  next
    case (FactoryThrows c x)
    with assms(2) have c: "c < length (frames s)" by (auto split: if_splits)
    then have h: "history_ok d q (world s) (built s) (frames s ! c)" by (simp add: fr)
    from assms(2) FactoryThrows c obtain v r where p: "pc (frames s ! c) = AwaitNewVersion v r"
      and s': "s' = suspend c (Settled (Thrown x)) [ReadVersion (world s), FactoryFailed x]
                      (leave (rebuild (world s) (Some x) s))"
      by (auto simp: loop_throws split: pc.splits if_splits)
    let ?s1 = "leave (rebuild (world s) (Some x) s)"
    from h p have "history_ok d False (world ?s1) (built ?s1)
        ((frames s ! c)\<lparr> pc := Settled (Thrown x),
           history := history (frames s ! c) @ [ReadVersion (world s), FactoryFailed x] \<rparr>)"
      by (auto simp: history_ok_def)
    from histories_ok_suspend[where ext = "[]", OF assms(1) c _ _ _ _ this] g(1,2)
    have "histories_ok d False (suspend c (Settled (Thrown x))
            [ReadVersion (world s), FactoryFailed x] ?s1)"
      by simp
    with s' FactoryThrows show ?thesis by simp
  next
    case (DisposeThrows c k x)
    with assms(2) have c: "c < length (frames s)" by (auto split: if_splits)
    then have h: "history_ok d q (world s) (built s) (frames s ! c)" by (simp add: fr)
    from assms(2) DisposeThrows c obtain v r where p: "pc (frames s ! c) = AwaitNewVersion v r"
      and s': "s' = suspend c (Settled (Thrown x)) [ReadVersion (world s), DisposeFailed k x]
                      (clear (Some (k, x)) (leave s))"
      by (auto simp: loop_throws split: pc.splits if_splits)
    from h p have "history_ok d q (world s) (built s)
        ((frames s ! c)\<lparr> pc := Settled (Thrown x),
           history := history (frames s ! c) @ [ReadVersion (world s), DisposeFailed k x] \<rparr>)"
      by (auto simp: history_ok_def)
    from histories_ok_suspend_same[OF assms(1) c _ _ _ _ _ this, of "clear (Some (k, x)) (leave s)"]
      s' DisposeThrows
    show ?thesis by simp
  qed
qed

lemma histories_ok_run:
  "histories_ok d q s \<Longrightarrow> run d s evs = Some s' \<Longrightarrow>
   histories_ok d (q \<and> list_all factory_returns evs) s'"
proof (induction evs arbitrary: s q)
  case Nil
  then show ?case by simp
next
  case (Cons ev evs)
  from Cons.prems(2) obtain s1 where s1: "step d s ev = Some s1" "run d s1 evs = Some s'"
    by (auto split: option.splits)
  from Cons.IH[OF histories_ok_step[OF Cons.prems(1) s1(1)] s1(2)] show ?case
    by (simp add: conj_assoc)
qed

lemma histories_ok_init: "histories_ok d True (init w)"
  by (simp add: histories_ok_def init_def)

text \<open>
  Claim C1, as amended. With a declaration host, whenever a wrapped call has returned a
  result \<open>r\<close>, the last things the call observed are: a version \<open>v\<close> read from the host,
  the invocation of the operation on some engine instance \<open>e\<close>, that invocation returning
  \<open>r\<close>, and the same version \<open>v\<close> read again (lines 60-64, 80-82); \<open>v\<close> is not older
  than the version at which the call began. If moreover that execution was a re-execution
  (\<open>pre\<close>, what the call observed before it, is not empty) and no call of the factory has
  thrown in the trace, then instance \<open>e\<close> was built at version \<open>v\<close>, so it is not older than
  the last declaration resolved before the call began.
\<close>

theorem result_between_equal_versions:
  assumes "run True (init w) evs = Some s" "f \<in> set (frames s)" "pc f = Settled (Returned r)"
  shows "\<exists>pre v e. history f =
           pre @ [ReadVersion v, Invoked e, Completed (Returned r), ReadVersion v] \<and>
           began f \<le> v \<and> e < length (built s) \<and>
           (list_all factory_returns evs \<and> pre \<noteq> [] \<longrightarrow>
              built s ! e = v \<and> began f \<le> built s ! e)"
proof -
  from histories_ok_run[OF histories_ok_init assms(1)] assms(2)
  have "history_ok True (list_all factory_returns evs) (world s) (built s) f"
    by (simp add: histories_ok_def)
  with assms(3) obtain pre v e where
    h: "history f = pre @ [ReadVersion v, Invoked e, Completed (Returned r), ReadVersion v]"
    and ex: "executed (list_all factory_returns evs) (world s) (built s) f pre e v"
    by (auto simp: history_ok_def)
  from ex have "began f \<le> v \<and> e < length (built s) \<and>
           (list_all factory_returns evs \<and> pre \<noteq> [] \<longrightarrow>
              built s ! e = v \<and> began f \<le> built s ! e)"
    by (auto simp: executed_def)
  with h show ?thesis by blast
qed

lemmas proxy_eval =
  init_def suspend_def loop_def rebuild_def leave_def clear_def Let_def

lemma stale_run:
  "run True (init 0) stale_trace =
     Some \<lparr> languageService = 0, built = [0], dtsVersion = 0, runningApis = 0,
            toClear = [], disposed = [],
            frames =
              [\<lparr> pc = Settled (Thrown ()), began = 0,
                  history = [ReadVersion 0, Invoked 0, Completed (Thrown ())] \<rparr>,
               \<lparr> pc = Settled (Returned 7), began = 1,
                  history = [ReadVersion 1, Invoked 0, Completed (Returned 7), ReadVersion 1] \<rparr>],
            world = 1 \<rparr>"
  by (simp add: stale_trace_def proxy_eval)

lemma stale_retry_run:
  "run True (init 0) stale_retry_trace =
     Some \<lparr> languageService = 0, built = [0], dtsVersion = 2, runningApis = 0,
            toClear = [], disposed = [0],
            frames =
              [\<lparr> pc = Settled (Thrown ()), began = 1,
                  history = [ReadVersion 1, Invoked 0, Completed (Returned 5),
                             ReadVersion 2, FactoryFailed ()] \<rparr>,
               \<lparr> pc = Settled (Returned 8), began = 1,
                  history = [ReadVersion 1, Invoked 0, Completed (Returned 6),
                             ReadVersion 2, Invoked 0, Completed (Returned 8), ReadVersion 2] \<rparr>],
            world = 2 \<rparr>"
  by (simp add: stale_retry_trace_def proxy_eval)

text \<open>
  Claim C1 as stated also says that the result is never computed against an instance
  built before the last declaration that resolved strictly before the call began. That
  fails: a first call reads version 0, and its operation throws (line 84 runs, lines
  64-82 do not, so \<^verbatim>\<open>languageService\<close> and \<^verbatim>\<open>dtsVersion\<close> stay as they are); a
  declaration resolves; a second call begins, reads version 1 before and after its
  operation, and returns a result computed by instance 0, which was built at version 0.

  The second trace shows why the amended claim speaks of factory calls that return: a
  first call reads version 2, not its \<^verbatim>\<open>oldVersion\<close>, sets \<^verbatim>\<open>dtsVersion\<close> to 2, and the
  factory throws; a second call, begun at version 1, then reads version 2, which is
  \<^verbatim>\<open>dtsVersion\<close>, re-executes on instance 0 (built at version 0) and returns that result.
\<close>

theorem stale_counterexample:
  "run True (init 0) stale_trace \<noteq> None \<and>
   frames (the (run True (init 0) stale_trace)) ! 1 =
     \<lparr> pc = Settled (Returned 7), began = 1,
        history = [ReadVersion 1, Invoked 0, Completed (Returned 7), ReadVersion 1] \<rparr> \<and>
   built (the (run True (init 0) stale_trace)) = [0] \<and>
   \<not> never_stale (the (run True (init 0) stale_trace)) \<and>
   frames (the (run True (init 0) stale_retry_trace)) ! 1 =
     \<lparr> pc = Settled (Returned 8), began = 1,
        history = [ReadVersion 1, Invoked 0, Completed (Returned 6),
                   ReadVersion 2, Invoked 0, Completed (Returned 8), ReadVersion 2] \<rparr> \<and>
   built (the (run True (init 0) stale_retry_trace)) = [0] \<and>
   \<not> never_stale (the (run True (init 0) stale_retry_trace))"
  by (simp add: stale_run stale_retry_run never_stale_def)

lemma rerun_run:
  "run True (init 0) rerun_trace =
     Some \<lparr> languageService = 1, built = [0, 1], dtsVersion = 1, runningApis = 0,
            toClear = [], disposed = [0],
            frames =
              [\<lparr> pc = Settled (Returned 2), began = 0,
                  history = [ReadVersion 0, Invoked 0, Completed (Returned 1),
                             ReadVersion 1, Invoked 1, Completed (Returned 2), ReadVersion 1] \<rparr>],
            world = 1 \<rparr>"
  by (simp add: rerun_trace_def proxy_eval)

text \<open>
  Claim C1, witness of the amended claim: a call that saw the version change, re-executed
  on the instance built for version 1 and returned that result.
\<close>

theorem result_between_equal_versions_witness:
  "pc (frames (the (run True (init 0) rerun_trace)) ! 0) = Settled (Returned 2) \<and>
   list_all factory_returns rerun_trace \<and>
   (\<exists>pre v e. history (frames (the (run True (init 0) rerun_trace)) ! 0) =
      pre @ [ReadVersion v, Invoked e, Completed (Returned 2), ReadVersion v] \<and>
      pre \<noteq> [] \<and> built (the (run True (init 0) rerun_trace)) ! e = v)"
proof -
  have a: "run True (init 0) rerun_trace = Some (the (run True (init 0) rerun_trace))"
    by (simp add: rerun_run)
  have b: "frames (the (run True (init 0) rerun_trace)) ! 0
             \<in> set (frames (the (run True (init 0) rerun_trace)))"
    by (simp add: rerun_run)
  have c: "pc (frames (the (run True (init 0) rerun_trace)) ! 0) = Settled (Returned 2)"
    by (simp add: rerun_run)
  have q: "list_all factory_returns rerun_trace" by (simp add: rerun_trace_def)
  from result_between_equal_versions[OF a b c] q obtain pre v e where
    h: "history (frames (the (run True (init 0) rerun_trace)) ! 0) =
          pre @ [ReadVersion v, Invoked e, Completed (Returned 2), ReadVersion v]"
    and i: "pre \<noteq> [] \<longrightarrow> built (the (run True (init 0) rerun_trace)) ! e = v"
    by blast
  from h have "length (history (frames (the (run True (init 0) rerun_trace)) ! 0)) = length pre + 4"
    by simp
  then have "pre \<noteq> []" by (auto simp: rerun_run)
  with h i c q show ?thesis by blast
qed

lemma settled_step:
  assumes "step d s ev = Some s'" "c < length (frames s)" "pc (frames s ! c) = Settled out"
  shows "frames s' ! c = frames s ! c \<and> c < length (frames s')"
proof (cases ev)
  case Resolve
  with assms show ?thesis by auto
next
  case Call
  with assms show ?thesis by (cases d) (auto simp: nth_append)
next
  case (VersionSettles k)
  with assms have "k \<noteq> c" by (auto split: if_splits)
  with assms VersionSettles show ?thesis
    by (auto simp: loop_def Let_def split: if_splits pc.splits)
next
  case (VersionRejects k x)
  with assms have "k \<noteq> c" by (auto split: if_splits)
  with assms VersionRejects show ?thesis
    by (auto split: if_splits pc.splits)
next
  case (OpSettles k out')
  with assms have "k \<noteq> c" by (auto split: if_splits)
  with assms OpSettles show ?thesis
    by (auto split: if_splits pc.splits outcome.splits)
next
  case (FactoryThrows k x)
  with assms have "k \<noteq> c" by (auto split: if_splits)
  with assms FactoryThrows show ?thesis
    by (auto simp: loop_throws split: if_splits pc.splits)
next
  case (DisposeThrows k j x)
  with assms have "k \<noteq> c" by (auto split: if_splits)
  with assms DisposeThrows show ?thesis
    by (auto simp: loop_throws split: if_splits pc.splits)
qed

lemma settled_run:
  assumes "run d s evs = Some s'" "c < length (frames s)" "pc (frames s ! c) = Settled out"
  shows "frames s' ! c = frames s ! c \<and> c < length (frames s')"
  using assms
proof (induction evs arbitrary: s)
  case Nil
  then show ?case by simp
next
  case (Cons ev evs)
  from Cons.prems(1) obtain s1 where s1: "step d s ev = Some s1" "run d s1 evs = Some s'"
    by (auto split: option.splits)
  from settled_step[OF s1(1) Cons.prems(2,3)]
  have "frames s1 ! c = frames s ! c" "c < length (frames s1)" by simp_all
  with Cons.IH[OF s1(2)] Cons.prems(3) show ?case by simp
qed

text \<open>
  Claim C4. If the engine operation awaited by a wrapped call (lines 61, 80) throws, the
  \<^verbatim>\<open>finally\<close> block decrements \<^verbatim>\<open>runningApis\<close>, the wrapper's promise is rejected
  with the very same error, the engine instances are left as they are, and the call is
  over: no later step changes its frame, so the operation is not invoked again for it.
\<close>

theorem engine_error_propagates:
  assumes "c < length (frames s)" "pc (frames s ! c) = AwaitResult e oldVersion"
  shows "\<exists>s'. step True s (OpSettles c (Thrown x)) = Some s' \<and>
              runningApis s' = runningApis s - 1 \<and>
              pc (frames s' ! c) = Settled (Thrown x) \<and>
              history (frames s' ! c) = history (frames s ! c) @ [Completed (Thrown x)] \<and>
              languageService s' = languageService s \<and> built s' = built s \<and>
              toClear s' = toClear s \<and> disposed s' = disposed s \<and>
              (\<forall>evs s''. run True s' evs = Some s'' \<longrightarrow> frames s'' ! c = frames s' ! c)"
proof -
  let ?s' = "suspend c (Settled (Thrown x)) [Completed (Thrown x)] (leave s)"
  from assms have st: "step True s (OpSettles c (Thrown x)) = Some ?s'" by simp
  from assms have c': "c < length (frames ?s')" and pc': "pc (frames ?s' ! c) = Settled (Thrown x)"
    by simp_all
  have "frames s'' ! c = frames ?s' ! c" if "run True ?s' evs = Some s''" for evs s''
    using settled_run[OF that c' pc'] by simp
  with st assms(1) show ?thesis by auto
qed

text \<open>Claim C4, witness: a call whose operation throws \<open>''boom''\<close> while it is the only call in flight.\<close>

theorem engine_error_propagates_witness:
  "pc (frames (the (run True (init 0) error_trace)) ! 0) = AwaitResult 0 0 \<and>
   (\<exists>s'. step True (the (run True (init 0) error_trace)) (OpSettles 0 (Thrown ''boom'')) = Some s' \<and>
         runningApis s' = 0 \<and> pc (frames s' ! 0) = Settled (Thrown ''boom'') \<and>
         history (frames s' ! 0) = [ReadVersion 0, Invoked 0, Completed (Thrown ''boom'')])"
proof -
  have r: "run True (init 0) error_trace =
     Some \<lparr> languageService = 0, built = [0], dtsVersion = 0, runningApis = 1,
            toClear = [], disposed = [],
            frames = [\<lparr> pc = AwaitResult 0 0, began = 0,
                        history = [ReadVersion 0, Invoked 0] \<rparr>],
            world = 0 \<rparr>"
    by (simp add: error_trace_def proxy_eval)
  have a: "0 < length (frames (the (run True (init 0) error_trace)))"
    and b: "pc (frames (the (run True (init 0) error_trace)) ! 0) = AwaitResult 0 0"
    by (simp_all add: r)
  from engine_error_propagates[OF a b, of "''boom''"] b show ?thesis
    by (auto simp: r)
qed

lemma shared_run:
  "run True (init 0) shared_trace =
     Some \<lparr> languageService = 1, built = [0, 1], dtsVersion = 1, runningApis = 2,
            toClear = [0], disposed = [],
            frames =
              [\<lparr> pc = AwaitResult 1 1, began = 0,
                  history = [ReadVersion 0, Invoked 0, Completed (Returned 5),
                             ReadVersion 1, Invoked 1] \<rparr>,
               \<lparr> pc = AwaitNewVersion 0 6, began = 0,
                  history = [ReadVersion 0, Invoked 0, Completed (Returned 6)] \<rparr>],
            world = 1 \<rparr>"
  by (simp add: shared_trace_def proxy_eval)

text \<open>
  Claim C2 as stated fails. Two calls read version 0 and run their operation on instance
  0; a declaration resolves; the first call reads version 1 and replaces the instance
  (\<^verbatim>\<open>dtsVersion\<close> becomes 1). The second call then reads version 1, which differs from its
  \<^verbatim>\<open>oldVersion\<close> 0, and re-executes, but line 66 finds \<^verbatim>\<open>newVersion === dtsVersion\<close>: the
  current instance is neither moved to \<^verbatim>\<open>toClear\<close> nor replaced.
\<close>

theorem retry_without_rebuild_counterexample:
  "pc (frames (the (run True (init 0) shared_trace)) ! 1) = AwaitNewVersion 0 6 \<and>
   world (the (run True (init 0) shared_trace)) = 1 \<and>
   step True (the (run True (init 0) shared_trace)) (VersionSettles 1) \<noteq> None \<and>
   pc (frames (the (step True (the (run True (init 0) shared_trace)) (VersionSettles 1))) ! 1)
     = AwaitResult 1 1 \<and>
   \<not> supersedes (the (run True (init 0) shared_trace))
        (the (step True (the (run True (init 0) shared_trace)) (VersionSettles 1)))"
  by (simp add: shared_run supersedes_def suspend_def loop_def)

text \<open>
  Claim C2, as amended. In any state, when a call reads a version that differs from its
  \<^verbatim>\<open>oldVersion\<close> and the factory, if it is called, returns, the operation is invoked again
  on the instance that is current after the step. The current instance is superseded
  (added to \<^verbatim>\<open>toClear\<close>) and a new instance is created and made current exactly when the
  version read also differs from \<^verbatim>\<open>dtsVersion\<close> (line 66); otherwise the instance,
  \<^verbatim>\<open>toClear\<close> and \<^verbatim>\<open>dtsVersion\<close> are unchanged. (The exit taken when the factory throws
  is the step \<open>FactoryThrows\<close>; this statement says nothing about it.)
\<close>

theorem retry_rebuilds_for_new_version:
  assumes "c < length (frames s)"
    and "pc (frames s ! c) = AwaitNewVersion oldVersion r"
    and "world s \<noteq> oldVersion"
  shows "\<exists>s'. step True s (VersionSettles c) = Some s' \<and>
              pc (frames s' ! c) = AwaitResult (languageService s') (world s) \<and>
              history (frames s' ! c) =
                history (frames s ! c) @ [ReadVersion (world s), Invoked (languageService s')] \<and>
              disposed s' = disposed s \<and> runningApis s' = runningApis s \<and>
              (if world s \<noteq> dtsVersion s
               then supersedes s s' \<and> dtsVersion s' = world s
               else languageService s' = languageService s \<and> built s' = built s \<and>
                    toClear s' = toClear s \<and> dtsVersion s' = dtsVersion s)"
proof -
  let ?s' = "loop c oldVersion r (world s) None None s"
  from assms have st: "step True s (VersionSettles c) = Some ?s'" by simp
  show ?thesis
  proof (cases "world s = dtsVersion s")
    case True
    with assms(1,3) st show ?thesis
      by (simp add: loop_def)
  next
    case False
    with assms(1,3) st show ?thesis
      by (simp add: loop_def Let_def supersedes_def)
  qed
qed

text \<open>Claim C2, witness: the second call of the trace above, in the branch without a rebuild.\<close>

theorem retry_rebuilds_for_new_version_witness:
  "pc (frames (the (run True (init 0) shared_trace)) ! 1) = AwaitNewVersion 0 6 \<and>
   world (the (run True (init 0) shared_trace)) = dtsVersion (the (run True (init 0) shared_trace)) \<and>
   (\<exists>s'. step True (the (run True (init 0) shared_trace)) (VersionSettles 1) = Some s' \<and>
         pc (frames s' ! 1) = AwaitResult (languageService s') 1 \<and>
         languageService s' = 1 \<and> built s' = [0, 1] \<and> toClear s' = [0])"
proof -
  have b: "1 < length (frames (the (run True (init 0) shared_trace)))"
    and c: "pc (frames (the (run True (init 0) shared_trace)) ! 1) = AwaitNewVersion 0 6"
    and d: "world (the (run True (init 0) shared_trace)) \<noteq> 0"
    by (simp_all add: shared_run)
  from retry_rebuilds_for_new_version[OF b c d] c show ?thesis
    by (auto simp: shared_run)
qed

lemma disposal_step:
  assumes "step d s ev = Some s'" "disposed s' \<noteq> disposed s"
  shows "runningApis s' = 0 \<and>
         ((disposed s' = disposed s @ toClear s \<and> toClear s' = []) \<or>
          (\<exists>k. disposed s' = disposed s @ take (Suc k) (toClear s) \<and> toClear s' = toClear s))"
proof (cases ev)
  case (VersionSettles c)
  with assms show ?thesis
    by (auto simp: loop_def Let_def clear_def split: if_splits pc.splits)
next
  case Call
  with assms show ?thesis by (cases d) auto
next
  case (DisposeThrows c k x)
  with assms show ?thesis
    by (auto simp: loop_throws clear_def split: if_splits pc.splits)
next
  case (FactoryThrows c x)
  with assms show ?thesis
    by (auto simp: loop_throws split: if_splits pc.splits)
qed (use assms in \<open>auto split: if_splits pc.splits outcome.splits\<close>)

lemma disposal_when_idle:
  assumes "run d (init w) evs = Some s" and "step d s ev = Some s'"
    and "disposed s' \<noteq> disposed s"
  shows "runningApis s' = 0 \<and> (\<forall>f \<in> set (frames s'). \<not> in_flight f)"
proof -
  have "counter_ok (init w)" by (simp add: counter_ok_def init_def)
  from counter_ok_step[OF counter_ok_run[OF this assms(1)] assms(2)]
  have c: "counter_ok s'" .
  from disposal_step[OF assms(2,3)] have "runningApis s' = 0" by simp
  with c show ?thesis by (simp add: counter_ok_def filter_empty_conv)
qed

lemma disposal_when_calm:
  assumes "run d (init w) evs = Some s" and "step d s ev = Some s'"
    and "list_all calm evs" "calm ev"
  shows "distinct (disposed s') \<and>
         (\<forall>e \<in> set (disposed s'). e < languageService s') \<and>
         (\<forall>f \<in> set (frames s'). \<forall>e v. pc f = AwaitResult e v \<longrightarrow> e \<notin> set (disposed s'))"
proof -
  from inv_step[OF inv_run[OF inv_init assms(1,3)] assms(2,4)]
  have "engines_ok s'" "executing_ok s'"
    by (simp_all add: inv_def)
  then show ?thesis
    by (auto simp: engines_ok_def executing_ok_def)
qed

lemma dispose_throws_run:
  "run True (init 0) dispose_throws_trace =
     Some \<lparr> languageService = 1, built = [0, 1], dtsVersion = 1, runningApis = 0,
            toClear = [], disposed = [0, 0],
            frames =
              [\<lparr> pc = Settled (Thrown ''boom''), began = 0,
                  history = [ReadVersion 0, Invoked 0, Completed (Returned 1),
                             ReadVersion 1, Invoked 1, Completed (Returned 2),
                             ReadVersion 1, DisposeFailed 0 ''boom''] \<rparr>,
               \<lparr> pc = Settled (Returned 3), began = 1,
                  history = [ReadVersion 1, Invoked 1, Completed (Returned 3), ReadVersion 1] \<rparr>],
            world = 1 \<rparr>"
  by (simp add: dispose_throws_trace_def proxy_eval)

lemma factory_throws_run:
  "run True (init 0) factory_throws_trace =
     Some \<lparr> languageService = 0, built = [0], dtsVersion = 1, runningApis = 0,
            toClear = [], disposed = [0],
            frames =
              [\<lparr> pc = Settled (Thrown ''boom''), began = 0,
                  history = [ReadVersion 0, Invoked 0, Completed (Returned 1),
                             ReadVersion 1, FactoryFailed ''boom''] \<rparr>,
               \<lparr> pc = Settled (Returned 2), began = 1,
                  history = [ReadVersion 1, Invoked 0, Completed (Returned 2), ReadVersion 1] \<rparr>],
            world = 1 \<rparr>"
  by (simp add: factory_throws_trace_def proxy_eval)

text \<open>
  Claim C3 fails on the code. First trace: a call supersedes instance 0 and, being the
  last call in flight, reaches line 90, where \<^verbatim>\<open>dispose()\<close> of instance 0 throws; line 92
  is skipped, so instance 0 stays in \<^verbatim>\<open>toClear\<close>, and the next call that returns calls
  \<^verbatim>\<open>dispose()\<close> on instance 0 again. Second trace: the factory throws at line 69, after
  line 68 has added the current instance 0 to \<^verbatim>\<open>toClear\<close>; instance 0 stays current, and
  the next call that returns disposes it.
\<close>

theorem dispose_called_twice:
  "run True (init 0) dispose_throws_trace \<noteq> None \<and>
   disposed (the (run True (init 0) dispose_throws_trace)) = [0, 0] \<and>
   run True (init 0) factory_throws_trace \<noteq> None \<and>
   languageService (the (run True (init 0) factory_throws_trace)) = 0 \<and>
   disposed (the (run True (init 0) factory_throws_trace)) = [0]"
  by (simp add: dispose_throws_run factory_throws_run)

lemma bare_ok_step:
  assumes "bare_ok w s" "step False s ev = Some s'"
  shows "bare_ok w s'"
proof (cases ev)
  case Resolve
  with assms show ?thesis by (auto simp: bare_ok_def)
next
  case Call
  with assms show ?thesis by (auto simp: bare_ok_def)
next
  case (VersionSettles c)
  with assms have "c < length (frames s)" by (auto split: if_splits)
  then have "frames s ! c \<in> set (frames s)" by simp
  with assms(1) have "pc (frames s ! c) = AwaitBare 0 \<or> (\<exists>out. pc (frames s ! c) = Settled out)"
    by (auto simp: bare_ok_def)
  with assms VersionSettles show ?thesis by (auto split: if_splits)
next
  case (VersionRejects c x)
  with assms have "c < length (frames s)" by (auto split: if_splits)
  then have "frames s ! c \<in> set (frames s)" by simp
  with assms(1) have "pc (frames s ! c) = AwaitBare 0 \<or> (\<exists>out. pc (frames s ! c) = Settled out)"
    by (auto simp: bare_ok_def)
  with assms VersionRejects show ?thesis by (auto split: if_splits)
next
  case (OpSettles c out)
  with assms have c: "c < length (frames s)" by (auto split: if_splits)
  then have m: "frames s ! c \<in> set (frames s)" by simp
  with assms(1) have "(pc (frames s ! c) = AwaitBare 0 \<and> history (frames s ! c) = [Invoked 0])
      \<or> (\<exists>out. pc (frames s ! c) = Settled out)"
    by (auto simp: bare_ok_def)
  with assms OpSettles c have p: "pc (frames s ! c) = AwaitBare 0"
    and h: "history (frames s ! c) = [Invoked 0]"
    and s': "s' = suspend c (Settled out) [Completed out] s"
    by (auto split: if_splits)
  have "(pc f = AwaitBare 0 \<and> history f = [Invoked 0]) \<or>
        (\<exists>out. pc f = Settled out \<and> history f = [Invoked 0, Completed out])"
    if "f \<in> set (frames s')" for f
  proof -
    from that s' h have "f \<in> set (frames s) \<or>
        f = (frames s ! c)\<lparr> pc := Settled out, history := [Invoked 0, Completed out] \<rparr>"
      using set_update_subset_insert[of "frames s" c] by auto
    then show ?thesis
    proof
      assume "f \<in> set (frames s)"
      with assms(1) show ?thesis unfolding bare_ok_def by blast
    next
      assume "f = (frames s ! c)\<lparr> pc := Settled out, history := [Invoked 0, Completed out] \<rparr>"
      then show ?thesis by simp
    qed
  qed
  moreover from assms(1) s' have "languageService s' = 0 \<and> built s' = [w] \<and> dtsVersion s' = 0 \<and>
      runningApis s' = 0 \<and> toClear s' = [] \<and> disposed s' = []"
    by (simp add: bare_ok_def)
  ultimately show ?thesis unfolding bare_ok_def by blast
next
  case (FactoryThrows c x)
  with assms have "c < length (frames s)" by (auto split: if_splits)
  then have "frames s ! c \<in> set (frames s)" by simp
  with assms(1) have "pc (frames s ! c) = AwaitBare 0 \<or> (\<exists>out. pc (frames s ! c) = Settled out)"
    by (auto simp: bare_ok_def)
  with assms FactoryThrows show ?thesis by (auto split: if_splits)
next
  case (DisposeThrows c k x)
  with assms have "c < length (frames s)" by (auto split: if_splits)
  then have "frames s ! c \<in> set (frames s)" by simp
  with assms(1) have "pc (frames s ! c) = AwaitBare 0 \<or> (\<exists>out. pc (frames s ! c) = Settled out)"
    by (auto simp: bare_ok_def)
  with assms DisposeThrows show ?thesis by (auto split: if_splits)
qed

lemma bare_ok_run: "bare_ok w s \<Longrightarrow> run False s evs = Some s' \<Longrightarrow> bare_ok w s'"
proof (induction evs arbitrary: s)
  case Nil
  then show ?case by simp
next
  case (Cons ev evs)
  then show ?case by (auto split: option.splits dest: bare_ok_step)
qed

text \<open>
  Claim C10. Without a declaration host (line 52), in every reachable state the engine
  instance is still the first one, nothing was superseded or disposed, the counters are
  untouched, and every call has invoked the operation exactly once on that instance,
  read no version, and (once settled) has the outcome of that one invocation.
\<close>

theorem bare_proxy_is_engine:
  assumes "run False (init w) evs = Some s"
  shows "languageService s = 0 \<and> built s = [w] \<and> dtsVersion s = 0 \<and> runningApis s = 0 \<and>
         toClear s = [] \<and> disposed s = [] \<and>
         (\<forall>f \<in> set (frames s).
            (pc f = AwaitBare 0 \<and> history f = [Invoked 0]) \<or>
            (\<exists>out. pc f = Settled out \<and> history f = [Invoked 0, Completed out]))"
proof -
  have "bare_ok w (init w)" by (simp add: bare_ok_def init_def)
  from bare_ok_run[OF this assms] show ?thesis by (simp add: bare_ok_def)
qed

text \<open>Claim C10, witness: two overlapping calls, one returning and one throwing.\<close>

theorem bare_proxy_is_engine_witness:
  "run False (init 0) bare_trace =
     Some \<lparr> languageService = 0, built = [0], dtsVersion = 0, runningApis = 0,
            toClear = [], disposed = [],
            frames =
              [\<lparr> pc = Settled (Returned 3), began = 0,
                  history = [Invoked 0, Completed (Returned 3)] \<rparr>,
               \<lparr> pc = Settled (Thrown ''boom''), began = 1,
                  history = [Invoked 0, Completed (Thrown ''boom'')] \<rparr>],
            world = 1 \<rparr> \<and>
   languageService (the (run False (init 0) bare_trace)) = 0 \<and>
   disposed (the (run False (init 0) bare_trace)) = []"
proof -
  have r: "run False (init 0) bare_trace =
     Some \<lparr> languageService = 0, built = [0], dtsVersion = 0, runningApis = 0,
            toClear = [], disposed = [],
            frames =
              [\<lparr> pc = Settled (Returned 3), began = 0,
                  history = [Invoked 0, Completed (Returned 3)] \<rparr>,
               \<lparr> pc = Settled (Thrown ''boom''), began = 1,
                  history = [Invoked 0, Completed (Thrown ''boom'')] \<rparr>],
            world = 1 \<rparr>"
    by (simp add: bare_trace_def proxy_eval)
  then have "run False (init 0) bare_trace = Some (the (run False (init 0) bare_trace))"
    by simp
  from bare_proxy_is_engine[OF this] r show ?thesis by simp
qed

section \<open>Strings and request URLs (worker.ts, lines 337-351)\<close>

text \<open>
  JavaScript strings are modelled as lists of characters. \<open>startsWith\<close>, \<open>endsWith\<close>,
  \<open>split\<close>, \<open>indexOf\<close> and \<open>replace\<close> follow \<^verbatim>\<open>String.prototype\<close>: \<open>replace\<close> with a
  string pattern rewrites the first occurrence only, and expands the patterns
  \<^verbatim>\<open>$$\<close>, \<^verbatim>\<open>$&\<close>, \<^verbatim>\<open>$`\<close> and \<^verbatim>\<open>$'\<close> of the replacement text (\<open>getSubstitution\<close>; there
  are no capture groups, so \<^verbatim>\<open>$1\<close> and \<^verbatim>\<open>$<\<close> stay as they are). The version pins
  (\<^verbatim>\<open>this.versions\<close>) are the list of entries in the order \<^verbatim>\<open>Object.entries\<close> gives them.
\<close>

definition startsWith :: "string \<Rightarrow> string \<Rightarrow> bool" where
  "startsWith s p = prefix p s"

definition endsWith :: "string \<Rightarrow> string \<Rightarrow> bool" where
  "endsWith s p = suffix p s"

fun split :: "char \<Rightarrow> string \<Rightarrow> string list" where
  "split sep [] = [[]]"
| "split sep (c # cs) =
     (if c = sep then [] # split sep cs
      else (case split sep cs of [] \<Rightarrow> [[c]] | w # ws \<Rightarrow> (c # w) # ws))"

fun indexOf :: "string \<Rightarrow> string \<Rightarrow> nat option" where
  "indexOf [] pat = (if pat = [] then Some 0 else None)"
| "indexOf (c # cs) pat =
     (if startsWith (c # cs) pat then Some 0 else map_option Suc (indexOf cs pat))"

fun getSubstitution :: "string \<Rightarrow> string \<Rightarrow> string \<Rightarrow> string \<Rightarrow> string" where
  "getSubstitution matched preceding following (c # d # template) =
     (if c = CHR ''$'' \<and> d = CHR ''$'' then CHR ''$'' # getSubstitution matched preceding following template
      else if c = CHR ''$'' \<and> d = CHR ''&'' then matched @ getSubstitution matched preceding following template
      else if c = CHR ''$'' \<and> d = CHR 0x60 then preceding @ getSubstitution matched preceding following template
      else if c = CHR ''$'' \<and> d = CHR 0x27 then following @ getSubstitution matched preceding following template
      else c # getSubstitution matched preceding following (d # template))"
| "getSubstitution matched preceding following template = template"

definition replace :: "string \<Rightarrow> string \<Rightarrow> string \<Rightarrow> string" where
  "replace s pat replacement =
     (case indexOf s pat of
        None \<Rightarrow> s
      | Some i \<Rightarrow>
          take i s
            @ getSubstitution pat (take i s) (drop (i + length pat) s) replacement
            @ drop (i + length pat) s)"

fun resolveRequestFileName :: "(string \<times> string) list \<Rightarrow> string \<Rightarrow> string" where
  "resolveRequestFileName [] fileName = fileName"
| "resolveRequestFileName ((key, version) # entries) fileName =
     (if startsWith fileName (''/node_modules/'' @ key @ ''/'')
      then replace fileName (''/node_modules/'' @ key @ ''/'')
             (''/node_modules/'' @ key @ ''@'' @ version @ ''/'')
      else resolveRequestFileName entries fileName)"

definition requestUrl :: "string \<Rightarrow> (string \<times> string) list \<Rightarrow> string \<Rightarrow> string" where
  "requestUrl cdn versions fileName =
     cdn @ drop (length ''/node_modules/'') (resolveRequestFileName versions fileName)"

definition packageName :: "string \<Rightarrow> bool" where
  "packageName name =
     (length (split CHR ''/'' name) = (if startsWith name ''@'' then 2 else 1))"

lemma split_nonempty: "split sep s \<noteq> []"
  by (induction s) (auto split: list.splits)

lemma split_append_sep: "split sep (a @ sep # b) = split sep a @ split sep b"
proof (induction a)
  case Nil
  then show ?case by simp
next
  case (Cons c a)
  then show ?case
    using split_nonempty[of sep a] by (cases "split sep a") auto
qed

lemma indexOf_startsWith: "startsWith s pat \<Longrightarrow> indexOf s pat = Some 0"
  by (cases s) (auto simp: startsWith_def)

lemma getSubstitution_plain:
  "CHR ''$'' \<notin> set template \<Longrightarrow> getSubstitution m l r template = template"
  by (induction m l r template rule: getSubstitution.induct) auto

lemma replace_prefix:
  assumes "CHR ''$'' \<notin> set replacement"
  shows "replace (pat @ rest) pat replacement = replacement @ rest"
  using assms
  by (simp add: replace_def indexOf_startsWith startsWith_def getSubstitution_plain)

lemma resolve_first_match:
  assumes "versions = earlier @ (key, version) # later"
    and "\<forall>(k, v) \<in> set earlier. \<not> startsWith fileName (''/node_modules/'' @ k @ ''/'')"
    and "fileName = ''/node_modules/'' @ key @ ''/'' @ rest"
    and "CHR ''$'' \<notin> set key \<union> set version"
  shows "resolveRequestFileName versions fileName =
           ''/node_modules/'' @ key @ ''@'' @ version @ ''/'' @ rest"
  using assms(1,2)
proof (induction earlier arbitrary: versions)
  case Nil
  have "CHR ''$'' \<notin> set (''/node_modules/'' @ key @ ''@'' @ version @ ''/'')"
    using assms(4) by auto
  from replace_prefix[OF this, of "''/node_modules/'' @ key @ ''/''" rest] Nil assms(3)
  show ?case by (simp add: startsWith_def)
next
  case (Cons e earlier)
  then show ?case by (cases e) auto
qed

lemma packageName_unique:
  assumes "packageName k" "packageName k'"
    and "startsWith f (''/node_modules/'' @ k @ ''/'')"
    and "startsWith f (''/node_modules/'' @ k' @ ''/'')"
  shows "k = k'"
proof -
  have step: "a = b"
    if "packageName a" "packageName b" "prefix (a @ ''/'') (b @ ''/'')" for a b
  proof (rule ccontr)
    assume "a \<noteq> b"
    from that(3) obtain z where z: "b @ ''/'' = a @ ''/'' @ z" by (auto simp: prefix_def)
    with \<open>a \<noteq> b\<close> have "z \<noteq> []" by auto
    then obtain z' where "z = z' @ ''/''"
      using z by (cases z rule: rev_cases) auto
    with z have b: "b = a @ CHR ''/'' # z'" by simp
    then have "length (split CHR ''/'' b) = length (split CHR ''/'' a) + length (split CHR ''/'' z')"
      by (simp add: split_append_sep)
    moreover have "0 < length (split CHR ''/'' z')" using split_nonempty by auto
    moreover have "startsWith b ''@'' = startsWith a ''@''"
    proof (cases a)
      case Nil
      with that(1) show ?thesis by (simp add: packageName_def startsWith_def b)
    next
      case (Cons c cs)
      then show ?thesis by (simp add: startsWith_def b)
    qed
    ultimately show False using that(1,2) by (simp add: packageName_def)
  qed
  from assms(3,4) have "prefix (k @ ''/'') (k' @ ''/'') \<or> prefix (k' @ ''/'') (k @ ''/'')"
    unfolding startsWith_def
    using prefix_same_cases[of "''/node_modules/'' @ k @ ''/''" f "''/node_modules/'' @ k' @ ''/''"]
    by simp
  with step[OF assms(1,2)] step[OF assms(2,1)] show ?thesis by auto
qed

lemma map_of_first:
  "map_of xs k = Some v \<Longrightarrow>
   \<exists>earlier later. xs = earlier @ (k, v) # later \<and> k \<notin> fst ` set earlier"
proof (induction xs)
  case Nil
  then show ?case by simp
next
  case (Cons x xs)
  show ?case
  proof (cases "fst x = k")
    case True
    with Cons.prems have "x # xs = [] @ (k, v) # xs \<and> k \<notin> fst ` set []" by (cases x) auto
    then show ?thesis by (intro exI)
  next
    case False
    with Cons obtain earlier later where
      "xs = earlier @ (k, v) # later" "k \<notin> fst ` set earlier"
      by (cases x) auto
    with False have "x # xs = (x # earlier) @ (k, v) # later \<and> k \<notin> fst ` set (x # earlier)"
      by auto
    then show ?thesis by (intro exI)
  qed
qed

text \<open>
  Claim C9. When the pin map holds \<open>version\<close> for \<open>key\<close>, a file
  \<^verbatim>\<open>/node_modules/key/rest\<close> is requested as \<^verbatim>\<open>/node_modules/key@version/rest\<close>, and the URL
  is the CDN's base followed by \<^verbatim>\<open>key@version/rest\<close>. The pin map is a map from package
  names to version strings: every key has the shape of a package name (one path segment,
  or two when the first starts with \<^verbatim>\<open>@\<close>), so that no other key names a prefix of the
  path, and neither the name nor the version holds a \<^verbatim>\<open>$\<close>, which \<^verbatim>\<open>replace\<close> would
  expand.
\<close>

theorem pinned_version_in_request:
  assumes "map_of versions key = Some version"
    and "\<forall>k \<in> fst ` set versions. packageName k"
    and "CHR ''$'' \<notin> set key \<union> set version"
  shows "resolveRequestFileName versions (''/node_modules/'' @ key @ ''/'' @ rest) =
           ''/node_modules/'' @ key @ ''@'' @ version @ ''/'' @ rest \<and>
         requestUrl cdn versions (''/node_modules/'' @ key @ ''/'' @ rest) =
           cdn @ key @ ''@'' @ version @ ''/'' @ rest"
proof -
  define f where "f = ''/node_modules/'' @ key @ ''/'' @ rest"
  from map_of_first[OF assms(1)] obtain earlier later where
    v: "versions = earlier @ (key, version) # later" and
    e: "key \<notin> fst ` set earlier"
    by blast
  have own: "startsWith f (''/node_modules/'' @ key @ ''/'')"
    by (simp add: startsWith_def f_def)
  have "\<not> startsWith f (''/node_modules/'' @ k @ ''/'')" if kw: "(k, w) \<in> set earlier" for k w
  proof
    assume m: "startsWith f (''/node_modules/'' @ k @ ''/'')"
    from kw have "k \<in> fst ` set earlier" by (rule image_eqI[rotated]) simp
    with v have "k \<in> fst ` set versions" by (auto simp: image_Un)
    with assms(2) have pk: "packageName k" by (rule bspec)
    from v have "key \<in> fst ` set versions" by simp
    with assms(2) have pkey: "packageName key" by (rule bspec)
    from packageName_unique[OF pk pkey m own] have "k = key" .
    with \<open>k \<in> fst ` set earlier\<close> e show False by simp
  qed
  then have "\<forall>(k, v) \<in> set earlier. \<not> startsWith f (''/node_modules/'' @ k @ ''/'')"
    by blast
  from resolve_first_match[OF v this f_def assms(3)]
  have "resolveRequestFileName versions f =
          ''/node_modules/'' @ key @ ''@'' @ version @ ''/'' @ rest" .
  then show ?thesis unfolding f_def by (simp add: requestUrl_def)
qed

text \<open>Claim C9, witness: the pin \<^verbatim>\<open>{ "lodash": "4.17.21" }\<close> and \<^verbatim>\<open>/node_modules/lodash/package.json\<close>.\<close>

theorem pinned_version_in_request_witness:
  "resolveRequestFileName [(''lodash'', ''4.17.21'')] ''/node_modules/lodash/package.json'' =
     ''/node_modules/lodash@4.17.21/package.json'' \<and>
   requestUrl ''https://cdn.jsdelivr.net/npm/'' [(''lodash'', ''4.17.21'')]
       ''/node_modules/lodash/package.json'' =
     ''https://cdn.jsdelivr.net/npm/lodash@4.17.21/package.json''"
proof -
  have a: "map_of [(''lodash'', ''4.17.21'')] ''lodash'' = Some ''4.17.21''" by simp
  have b: "\<forall>k \<in> fst ` set [(''lodash'', ''4.17.21'')]. packageName k"
    by (simp add: packageName_def startsWith_def)
  have c: "CHR ''$'' \<notin> set ''lodash'' \<union> set ''4.17.21''" by simp
  from pinned_version_in_request[OF a b c, of "''package.json''" "''https://cdn.jsdelivr.net/npm/''"]
  show ?thesis by simp
qed

section \<open>The declaration host: class \<^verbatim>\<open>CdnDtsHost\<close> (worker.ts, lines 255-352)\<close>

text \<open>
  The host keeps a map from file names to promises (\<^verbatim>\<open>files\<close>, line 257), a map from
  package names to the promises of their file listings (\<^verbatim>\<open>flatResult\<close>, line 258) and the
  number \<^verbatim>\<open>lastUpdateFilesSize\<close>. Both maps are association lists in insertion order, the
  order in which a JavaScript \<^verbatim>\<open>Map\<close> is iterated. A promise is modelled by its state: it
  is settled, or it is the promise of a call that is suspended at one of its \<^verbatim>\<open>await\<close>s,
  and then the state names that \<^verbatim>\<open>await\<close> and holds the local variables that are live
  there. As for the proxy, one step is what runs between two suspension points.

  The value \<^verbatim>\<open>JSON.parse\<close> returns: objects keep their members in order.
\<close>

datatype json =
    JNull | JBool bool | JNumber int | JString string
  | JArray "json list" | JObject "(string \<times> json) list"

text \<open>
  \<open>truthy\<close> is the test of line 316 on a member that may be missing (\<^verbatim>\<open>undefined\<close>);
  \<open>member j k\<close> is \<^verbatim>\<open>j[k]\<close> for \<open>k\<close> one of \<^verbatim>\<open>types\<close> and \<^verbatim>\<open>typings\<close>: only an object can
  have such a member. (On \<^verbatim>\<open>null\<close> the access throws: see \<open>resume\<close>.)
\<close>

fun truthy :: "json option \<Rightarrow> bool" where
  "truthy None = False"
| "truthy (Some JNull) = False"
| "truthy (Some (JBool b)) = b"
| "truthy (Some (JNumber n)) = (n \<noteq> 0)"
| "truthy (Some (JString s)) = (s \<noteq> [])"
| "truthy (Some (JArray xs)) = True"
| "truthy (Some (JObject kvs)) = True"

fun member :: "json \<Rightarrow> string \<Rightarrow> json option" where
  "member (JObject kvs) k = map_of kvs k"
| "member j k = None"

text \<open>
  The errors a promise of the host is rejected with: \<^verbatim>\<open>JSON.parse\<close> throwing, a member
  access on \<^verbatim>\<open>null\<close> or \<^verbatim>\<open>undefined\<close> throwing, and a rejection of the listing function.

  The promise \<^verbatim>\<open>fetchFile\<close> returns: suspended at line 313, at line 319, at line 330 or at
  line 340, fulfilled with a text or with \<^verbatim>\<open>undefined\<close>, or rejected.
\<close>

datatype error = SyntaxError | TypeError | Failure string

datatype promise =
    AwaitManifest string string
  | AwaitIndexDts string string
  | AwaitFlat string
  | AwaitFetch string
  | Fulfilled "string option"
  | Rejected error

text \<open>
  What the listing function's promise settles with, and where a call of \<^verbatim>\<open>getVersion\<close>
  stands: suspended at line 271 with its \<^verbatim>\<open>newFileSize\<close>, returned, or rejected.
\<close>

datatype listing = Listing "string list" | Unlisted error

datatype drain = Draining nat | Answered nat | Failed error

text \<open>
  The constructor's arguments (lines 261-266): \<open>versions\<close> in the order of
  \<^verbatim>\<open>Object.entries\<close>, \<open>flat\<close> telling whether a listing function was given. What that
  function and \<^verbatim>\<open>fetchText\<close> resolve to arrives with the events \<open>FlatSettles\<close> and
  \<open>FetchSettles\<close>. \<open>JSON_parse\<close> is \<^verbatim>\<open>JSON.parse\<close>, \<open>None\<close> where it throws.
\<close>

record env =
  cdn :: string
  versions :: "(string \<times> string) list"
  flat :: bool
  JSON_parse :: "string \<Rightarrow> json option"

text \<open>
  The fields of the object (lines 257-259), and three lists that are not program
  variables: the calls of \<^verbatim>\<open>fetchText\<close> so far (file name and URL), the calls of
  \<^verbatim>\<open>getVersion\<close> so far, and the numbers \<^verbatim>\<open>getVersion\<close> has returned, in the order
  in which it returned them.
\<close>

record host =
  files :: "(string \<times> promise) list"
  flatResult :: "(string \<times> listing option) list"
  lastUpdateFilesSize :: nat
  fetched :: "(string \<times> string) list"
  drains :: "drain list"
  answers :: "nat list"

definition emptyHost :: host where
  "emptyHost = \<lparr> files = [], flatResult = [], lastUpdateFilesSize = 0, fetched = [],
                  drains = [], answers = [] \<rparr>"

text \<open>\<^verbatim>\<open>Map.prototype.set\<close>: a key that is present keeps its place.\<close>

fun assign :: "'k \<Rightarrow> 'v \<Rightarrow> ('k \<times> 'v) list \<Rightarrow> ('k \<times> 'v) list" where
  "assign k v [] = [(k, v)]"
| "assign k v ((k', v') # kvs) = (if k' = k then (k, v) # kvs else (k', v') # assign k v kvs)"

text \<open>
  Lines 295-298. With fewer than three segments \<^verbatim>\<open>split('/')[2]\<close> is \<^verbatim>\<open>undefined\<close> and
  line 296 throws (\<open>None\<close>); a missing fourth segment is concatenated as the text
  \<^verbatim>\<open>undefined\<close>.
\<close>

definition pkgNameOf :: "string \<Rightarrow> string option" where
  "pkgNameOf fileName =
     (let parts = split CHR ''/'' fileName in
      if length parts \<le> 2 then None
      else if startsWith (parts ! 2) ''@''
           then Some (parts ! 2 @ ''/'' @ (if length parts \<le> 3 then ''undefined'' else parts ! 3))
           else Some (parts ! 2))"

text \<open>Lines 309-312, and the two file names of lines 313 and 319.\<close>

definition originalPkgNameOf :: "string \<Rightarrow> string" where
  "originalPkgNameOf pkgName =
     (let originalPkgName = drop (length ''@types/'') pkgName in
      if indexOf originalPkgName ''__'' \<noteq> None
      then ''@'' @ replace originalPkgName ''__'' ''/''
      else originalPkgName)"

definition packageJsonOf :: "string \<Rightarrow> string" where
  "packageJsonOf originalPkgName = ''/node_modules/'' @ originalPkgName @ ''/package.json''"

definition indexDtsOf :: "string \<Rightarrow> string" where
  "indexDtsOf originalPkgName = ''/node_modules/'' @ originalPkgName @ ''/index.d.ts''"

text \<open>Lines 337-340, up to the \<^verbatim>\<open>await\<close> of \<^verbatim>\<open>fetchText\<close>, which never rejects (lines 354-363).\<close>

definition fetchFile_request :: "env \<Rightarrow> host \<Rightarrow> string \<Rightarrow> host \<times> promise" where
  "fetchFile_request e h fileName =
     (let url = requestUrl (cdn e) (versions e) fileName
      in (h\<lparr> fetched := fetched h @ [(fileName, url)] \<rparr>, AwaitFetch url))"

text \<open>
  Lines 326-330, up to the \<^verbatim>\<open>await\<close> of the listing. The listing function returns a promise
  (line 214); one that throws instead is not told apart from one whose promise is
  rejected: in both cases the promise of \<^verbatim>\<open>fetchFile\<close> is rejected with that error.
\<close>

definition fetchFile_flat :: "host \<Rightarrow> string \<Rightarrow> host \<times> promise" where
  "fetchFile_flat h pkgName =
     ((if map_of (flatResult h) pkgName = None
       then h\<lparr> flatResult := flatResult h @ [(pkgName, None)] \<rparr>
       else h),
      AwaitFlat pkgName)"

text \<open>
  \<^verbatim>\<open>readFile\<close> and \<^verbatim>\<open>fetchFile\<close> call each other before the first \<^verbatim>\<open>await\<close> (line 313 is
  reached synchronously). \<open>depth\<close> decreases along these calls: the original package of
  a types package has a shorter name, but for the two names treated apart.
\<close>

definition depth :: "string \<Rightarrow> nat" where
  "depth fileName =
     (case pkgNameOf fileName of
        None \<Rightarrow> 0
      | Some p \<Rightarrow>
          if \<not> startsWith p ''@types/'' then 0
          else if p = ''@types/package.json'' then 1
          else if p = ''@types/@types'' then 2
          else 3 + length p)"

lemma split_no_sep: "w \<in> set (split sep s) \<Longrightarrow> sep \<notin> set w"
proof (induction s arbitrary: w)
  case Nil
  then show ?case by simp
next
  case (Cons c s)
  show ?case
  proof (cases "c = sep")
    case True
    with Cons show ?thesis by auto
  next
    case False
    obtain v vs where vs: "split sep s = v # vs"
      using split_nonempty[of sep s] by (cases "split sep s") auto
    with Cons False show ?thesis by auto
  qed
qed

lemma split_plain: "sep \<notin> set s \<Longrightarrow> split sep s = [s]"
  by (induction s) auto

lemma pkgName_examples:
  "pkgNameOf ''/node_modules/@types/foo/index.d.ts'' = Some ''@types/foo''"
  "pkgNameOf ''/node_modules/lodash/package.json'' = Some ''lodash''"
  "pkgNameOf ''/node_modules/@x.d.ts'' = Some ''@x.d.ts/undefined''"
  "originalPkgNameOf ''@types/babel__core'' = ''@babel/core''"
  "originalPkgNameOf ''@types/foo'' = ''foo''"
  by (simp_all add: pkgNameOf_def originalPkgNameOf_def startsWith_def replace_def)

lemma sep_unique:
  "a @ sep # x = b @ sep # y \<Longrightarrow> sep \<notin> set a \<Longrightarrow> sep \<notin> set b \<Longrightarrow> a = b \<and> x = y"
proof (induction a arbitrary: b)
  case Nil
  then show ?case by (cases b) auto
next
  case (Cons c a)
  then show ?case by (cases b) auto
qed

lemma types_prefix:
  assumes "startsWith (s @ CHR ''/'' # x) ''@types/''" "CHR ''/'' \<notin> set s"
  shows "s = ''@types''"
proof -
  from assms(1) obtain z where "s @ CHR ''/'' # x = ''@types'' @ CHR ''/'' # z"
    by (auto simp: startsWith_def prefix_def)
  from sep_unique[OF this assms(2)] show ?thesis by simp
qed

lemma pkgName_shape:
  assumes "pkgNameOf f = Some p"
  shows "(CHR ''/'' \<notin> set p \<and> \<not> startsWith p ''@'') \<or>
         (\<exists>s x. p = s @ CHR ''/'' # x \<and> CHR ''/'' \<notin> set s \<and> CHR ''/'' \<notin> set x)"
proof -
  let ?parts = "split CHR ''/'' f"
  from assms have len: "2 < length ?parts"
    by (auto simp: pkgNameOf_def Let_def split: if_splits)
  then have s2: "CHR ''/'' \<notin> set (?parts ! 2)"
    using split_no_sep[of "?parts ! 2" "CHR ''/''" f] by simp
  show ?thesis
  proof (cases "startsWith (?parts ! 2) ''@''")
    case False
    with assms len s2 show ?thesis by (auto simp: pkgNameOf_def Let_def)
  next
    case True
    let ?x = "if length ?parts \<le> 3 then ''undefined'' else ?parts ! 3"
    have "CHR ''/'' \<notin> set ?x"
      using split_no_sep[of "?parts ! 3" "CHR ''/''" f] by auto
    moreover from True assms len have "p = ?parts ! 2 @ CHR ''/'' # ?x"
      by (auto simp: pkgNameOf_def Let_def)
    ultimately show ?thesis using s2 by blast
  qed
qed

lemma types_pkg:
  assumes "pkgNameOf f = Some p" "startsWith p ''@types/''"
  shows "\<exists>o'. p = ''@types/'' @ o' \<and> CHR ''/'' \<notin> set o'"
proof -
  from assms(2) have "CHR ''/'' \<in> set p"
    by (auto simp: startsWith_def prefix_def)
  with pkgName_shape[OF assms(1)] obtain s x where
    p: "p = s @ CHR ''/'' # x" and s: "CHR ''/'' \<notin> set s" and x: "CHR ''/'' \<notin> set x"
    by blast
  from types_prefix[of s x] assms(2) p s have "s = ''@types''" by simp
  with p x show ?thesis by simp
qed

lemma split_nested:
  "split CHR ''/'' (packageJsonOf q) =
     [] # ''node_modules'' # split CHR ''/'' q @ [''package.json'']"
proof -
  have "packageJsonOf q =
        [] @ CHR ''/'' # (''node_modules'' @ CHR ''/'' # (q @ CHR ''/'' # ''package.json''))"
    by (simp add: packageJsonOf_def)
  then have "split CHR ''/'' (packageJsonOf q) =
     split CHR ''/'' [] @ split CHR ''/'' ''node_modules'' @ split CHR ''/'' q
       @ split CHR ''/'' ''package.json''"
    by (simp only: split_append_sep append_assoc)
  then show ?thesis
    by (simp add: split_plain)
qed

lemma pkgNameOf_nested_plain:
  assumes "CHR ''/'' \<notin> set q"
  shows "pkgNameOf (packageJsonOf q) =
           (if startsWith q ''@'' then Some (q @ ''/package.json'') else Some q)"
  unfolding pkgNameOf_def split_nested
  using assms by (simp add: split_plain)

lemma pkgNameOf_nested_scoped:
  assumes "CHR ''/'' \<notin> set a" "CHR ''/'' \<notin> set b"
  shows "pkgNameOf (packageJsonOf (CHR ''@'' # a @ CHR ''/'' # b)) =
           Some (CHR ''@'' # a @ CHR ''/'' # b)"
proof -
  have "split CHR ''/'' (CHR ''@'' # a @ CHR ''/'' # b) = [CHR ''@'' # a, b]"
    using assms split_append_sep[of "CHR ''/''" "CHR ''@'' # a" b] by (simp add: split_plain)
  then show ?thesis
    unfolding pkgNameOf_def split_nested by (simp add: startsWith_def)
qed

lemma indexOf_Some:
  "indexOf s pat = Some i \<Longrightarrow> s = take i s @ pat @ drop (i + length pat) s"
proof (induction s arbitrary: i)
  case Nil
  then show ?case by (simp split: if_splits)
next
  case (Cons c cs)
  show ?case
  proof (cases "startsWith (c # cs) pat")
    case True
    with Cons.prems have "i = 0" by simp
    with True show ?thesis by (auto simp: startsWith_def prefix_def)
  next
    case False
    with Cons.prems obtain j where j: "indexOf cs pat = Some j" "i = Suc j" by auto
    from Cons.IH[OF j(1)] j(2) show ?thesis by simp
  qed
qed

lemma replace_at:
  assumes "indexOf s pat = Some i" "CHR ''$'' \<notin> set r"
  shows "replace s pat r = take i s @ r @ drop (i + length pat) s"
  using assms by (simp add: replace_def getSubstitution_plain)

lemma indexOf_bound: "indexOf s pat = Some i \<Longrightarrow> i + length pat \<le> length s"
proof (induction s arbitrary: i)
  case Nil
  then show ?case by (simp split: if_splits)
next
  case (Cons c cs)
  show ?case
  proof (cases "startsWith (c # cs) pat")
    case True
    with Cons.prems have "i = 0" by simp
    with True show ?thesis by (auto simp: startsWith_def dest: prefix_length_le)
  next
    case False
    with Cons.prems obtain j where j: "indexOf cs pat = Some j" "i = Suc j" by auto
    from Cons.IH[OF j(1)] j(2) show ?thesis by simp
  qed
qed

lemma depth_nested_plain:
  assumes "CHR ''/'' \<notin> set q" "q \<noteq> ''@types''"
  shows "depth (packageJsonOf q) = 0"
proof (cases "startsWith q ''@''")
  case False
  then have "\<not> startsWith q ''@types/''" by (auto simp: startsWith_def prefix_def)
  with False assms show ?thesis by (simp add: depth_def pkgNameOf_nested_plain)
next
  case True
  have "\<not> startsWith (q @ ''/package.json'') ''@types/''"
    using types_prefix[of q "''package.json''"] assms by auto
  with True assms show ?thesis by (simp add: depth_def pkgNameOf_nested_plain)
qed

lemma depth_nested_types: "depth (packageJsonOf ''@types'') = 1"
proof -
  have "pkgNameOf (packageJsonOf ''@types'') = Some ''@types/package.json''"
    by (simp add: pkgNameOf_nested_plain startsWith_def)
  then show ?thesis by (simp add: depth_def startsWith_def)
qed

lemma depth_nested_scoped:
  assumes "CHR ''/'' \<notin> set a" "CHR ''/'' \<notin> set b"
  shows "depth (packageJsonOf (CHR ''@'' # a @ CHR ''/'' # b)) \<le> 5 + length a + length b"
  unfolding depth_def pkgNameOf_nested_scoped[OF assms] by simp

lemma depth_decreases:
  assumes "pkgNameOf f = Some p" "startsWith p ''@types/''"
  shows "depth (packageJsonOf (originalPkgNameOf p)) < depth f"
proof -
  from types_pkg[OF assms] obtain o' where p: "p = ''@types/'' @ o'" and o: "CHR ''/'' \<notin> set o'"
    by blast
  have pos: "0 < depth f" using assms by (simp add: depth_def)
  show ?thesis
  proof (cases "indexOf o' ''__''")
    case None
    then have q: "originalPkgNameOf p = o'" by (simp add: originalPkgNameOf_def p)
    show ?thesis
    proof (cases "o' = ''@types''")
      case False
      with depth_nested_plain[OF o] pos q show ?thesis by simp
    next
      case True
      with p assms have "depth f = 2" by (simp add: depth_def)
      with True q depth_nested_types show ?thesis by simp
    qed
  next
    case (Some i)
    define a where "a = take i o'"
    define b where "b = drop (i + 2) o'"
    from indexOf_bound[OF Some] have len: "length a + length b + 2 = length o'"
      by (simp add: a_def b_def)
    have ab: "CHR ''/'' \<notin> set a" "CHR ''/'' \<notin> set b"
      using o by (auto simp: a_def b_def dest: in_set_takeD in_set_dropD)
    from Some have q: "originalPkgNameOf p = CHR ''@'' # a @ CHR ''/'' # b"
      by (simp add: originalPkgNameOf_def p replace_at a_def b_def)
    have "o' \<noteq> ''package.json''" "o' \<noteq> ''@types''"
      using Some by (auto simp: startsWith_def)
    with assms p have "depth f = 10 + length o'" by (simp add: depth_def)
    with depth_nested_scoped[OF ab] len q show ?thesis by simp
  qed
qed

text \<open>Lines 280-284.\<close>

definition served :: "string \<Rightarrow> bool" where
  "served fileName =
     (startsWith fileName ''/node_modules/''
      \<and> (endsWith fileName ''.d.ts'' \<or> endsWith fileName ''/package.json''))"

text \<open>
  \<^verbatim>\<open>readFile\<close> (lines 279-291) returns the state and whether it returns a promise (the
  entry of the file) or \<^verbatim>\<open>undefined\<close>. \<^verbatim>\<open>fetchFile\<close> (lines 293-341) is run up to its
  first \<^verbatim>\<open>await\<close>, or to its \<^verbatim>\<open>return\<close> when that comes first, and returns the promise's
  state; line 286 stores it after the call, so after the entries the call has made.
  Without a listing function, lines 295-334 are skipped.
\<close>

function readFile :: "env \<Rightarrow> host \<Rightarrow> string \<Rightarrow> host \<times> bool"
  and fetchFile :: "env \<Rightarrow> host \<Rightarrow> string \<Rightarrow> host \<times> promise" where
  "readFile e h fileName =
     (if served fileName
      then (if map_of (files h) fileName = None
            then (case fetchFile e h fileName of
                    (h', t) \<Rightarrow> (h'\<lparr> files := assign fileName t (files h') \<rparr>, True))
            else (h, True))
      else (h, False))"
| "fetchFile e h fileName =
     (if flat e
      then (case pkgNameOf fileName of
              None \<Rightarrow> (h, Rejected TypeError)
            | Some pkgName \<Rightarrow>
                if endsWith pkgName ''.d.ts'' \<or> endsWith pkgName ''/node_modules''
                then (h, Fulfilled None)
                else if startsWith pkgName ''@typescript/''
                        \<or> startsWith pkgName ''@types/typescript__''
                then (h, Fulfilled None)
                else if startsWith pkgName ''@types/''
                then (fst (readFile e h (packageJsonOf (originalPkgNameOf pkgName))),
                      AwaitManifest pkgName (originalPkgNameOf pkgName))
                else fetchFile_flat h pkgName)
      else fetchFile_request e h fileName)"
  by pat_completeness auto
termination
proof (relation "measure (\<lambda>x. case x of Inl (e, h, f) \<Rightarrow> 2 * depth f + 1
                                        | Inr (e, h, f) \<Rightarrow> 2 * depth f)")
  show "wf (measure (\<lambda>x. case x of Inl (e, h, f) \<Rightarrow> 2 * depth f + 1
                                    | Inr (e, h, f) \<Rightarrow> 2 * depth f))"
    by simp
next
  fix e h fileName
  show "(Inr (e, h, fileName), Inl (e, h, fileName))
        \<in> measure (\<lambda>x. case x of Inl (e, h, f) \<Rightarrow> 2 * depth f + 1
                                  | Inr (e, h, f) \<Rightarrow> 2 * depth f)"
    by simp
next
  fix e h fileName pkgName
  assume "pkgNameOf fileName = Some pkgName" "startsWith pkgName ''@types/''"
  from depth_decreases[OF this]
  show "(Inl (e, h, packageJsonOf (originalPkgNameOf pkgName)), Inr (e, h, fileName))
        \<in> measure (\<lambda>x. case x of Inl (e, h, f) \<Rightarrow> 2 * depth f + 1
                                  | Inr (e, h, f) \<Rightarrow> 2 * depth f)"
    by simp
qed

declare readFile.simps [simp del] fetchFile.simps [simp del]

text \<open>
  What an \<^verbatim>\<open>await\<close> finds. \<open>awaitFile\<close> is \<^verbatim>\<open>await this.readFile(...)\<close> once the file has its
  entry; \<open>promiseAll\<close> is \<^verbatim>\<open>Promise.all\<close>, rejected as soon as one promise is.
\<close>

datatype 'a awaited = StillPending | Gave 'a | Threw error

definition awaitFile :: "host \<Rightarrow> string \<Rightarrow> string option awaited" where
  "awaitFile h path =
     (case map_of (files h) path of
        None \<Rightarrow> Gave None
      | Some (Fulfilled v) \<Rightarrow> Gave v
      | Some (Rejected x) \<Rightarrow> Threw x
      | Some t \<Rightarrow> StillPending)"

fun promiseAll :: "promise list \<Rightarrow> unit awaited" where
  "promiseAll [] = Gave ()"
| "promiseAll (Rejected x # ts) = Threw x"
| "promiseAll (Fulfilled v # ts) = promiseAll ts"
| "promiseAll (t # ts) = (case promiseAll ts of Threw x \<Rightarrow> Threw x | r \<Rightarrow> StillPending)"

text \<open>Lines 331-340, after the \<^verbatim>\<open>await\<close> of the listing.\<close>

definition fetchFile_listing ::
  "env \<Rightarrow> host \<Rightarrow> string \<Rightarrow> string \<Rightarrow> string list \<Rightarrow> host \<times> promise" where
  "fetchFile_listing e h fileName pkgName listing =
     (if drop (length (''/node_modules/'' @ pkgName)) fileName \<in> set listing
      then fetchFile_request e h fileName
      else (h, Fulfilled None))"

text \<open>
  \<^verbatim>\<open>fetchFile\<close> from the \<^verbatim>\<open>await\<close> where it is suspended to the next one or to its end;
  \<open>None\<close> while the awaited promise is pending. After line 313: lines 314-323, where
  \<^verbatim>\<open>JSON.parse\<close> (line 315) and the member access on \<^verbatim>\<open>null\<close> (line 316) throw out of
  the function, nothing catching them. After line 319: lines 320-330.
\<close>

fun resume :: "env \<Rightarrow> host \<Rightarrow> string \<Rightarrow> promise \<Rightarrow> (host \<times> promise) option" where
  "resume e h fileName (AwaitManifest pkgName originalPkgName) =
     (case awaitFile h (packageJsonOf originalPkgName) of
        StillPending \<Rightarrow> None
      | Threw x \<Rightarrow> Some (h, Rejected x)
      | Gave None \<Rightarrow> Some (fetchFile_flat h pkgName)
      | Gave (Some packageJson) \<Rightarrow>
          if packageJson = [] then Some (fetchFile_flat h pkgName)
          else (case JSON_parse e packageJson of
                  None \<Rightarrow> Some (h, Rejected SyntaxError)
                | Some JNull \<Rightarrow> Some (h, Rejected TypeError)
                | Some packageJsonObj \<Rightarrow>
                    if truthy (member packageJsonObj ''types'')
                       \<or> truthy (member packageJsonObj ''typings'')
                    then Some (h, Fulfilled None)
                    else Some (fst (readFile e h (indexDtsOf originalPkgName)),
                               AwaitIndexDts pkgName originalPkgName)))"
| "resume e h fileName (AwaitIndexDts pkgName originalPkgName) =
     (case awaitFile h (indexDtsOf originalPkgName) of
        StillPending \<Rightarrow> None
      | Threw x \<Rightarrow> Some (h, Rejected x)
      | Gave None \<Rightarrow> Some (fetchFile_flat h pkgName)
      | Gave (Some indexDts) \<Rightarrow>
          if indexDts = [] then Some (fetchFile_flat h pkgName) else Some (h, Fulfilled None))"
| "resume e h fileName (AwaitFlat pkgName) =
     (case map_of (flatResult h) pkgName of
        None \<Rightarrow> Some (h, Rejected TypeError)
      | Some None \<Rightarrow> None
      | Some (Some (Unlisted x)) \<Rightarrow> Some (h, Rejected x)
      | Some (Some (Listing listing)) \<Rightarrow> Some (fetchFile_listing e h fileName pkgName listing))"
| "resume e h fileName (AwaitFetch url) = None"
| "resume e h fileName (Fulfilled v) = None"
| "resume e h fileName (Rejected x) = None"

text \<open>
  \<^verbatim>\<open>getVersion\<close> (lines 268-277) at its loop test: it suspends with \<^verbatim>\<open>newFileSize\<close>, or
  returns \<^verbatim>\<open>files.size\<close>. \<open>k\<close> is the position of the call in \<open>drains\<close>.
\<close>

definition getVersion_test :: "host \<Rightarrow> drain" where
  "getVersion_test h =
     (if length (files h) \<noteq> lastUpdateFilesSize h
      then Draining (length (files h))
      else Answered (length (files h)))"

definition getVersion_suspend :: "nat \<Rightarrow> host \<Rightarrow> host" where
  "getVersion_suspend k h =
     (case getVersion_test h of
        Answered n \<Rightarrow> h\<lparr> drains := (drains h)[k := Answered n], answers := answers h @ [n] \<rparr>
      | d \<Rightarrow> h\<lparr> drains := (drains h)[k := d] \<rparr>)"

text \<open>
  The events: a call of \<^verbatim>\<open>readFile\<close>; the resumption of the \<^verbatim>\<open>fetchFile\<close> of a file whose
  awaited promise is settled; \<^verbatim>\<open>fetchText\<close> or the listing function settling; a call of
  \<^verbatim>\<open>getVersion\<close>; the resumption of a \<^verbatim>\<open>getVersion\<close> whose \<^verbatim>\<open>Promise.all\<close> is settled (the
  promises it awaits are the first \<^verbatim>\<open>newFileSize\<close> entries, entries being only added).
\<close>

datatype hostEvent =
    ReadFile string
  | Resume string
  | FetchSettles string "string option"
  | FlatSettles string listing
  | GetVersion
  | VersionResume nat

fun hostStep :: "env \<Rightarrow> host \<Rightarrow> hostEvent \<Rightarrow> host option" where
  "hostStep e h (ReadFile fileName) = Some (fst (readFile e h fileName))"
| "hostStep e h (Resume fileName) =
     (case map_of (files h) fileName of
        None \<Rightarrow> None
      | Some t \<Rightarrow>
          (case resume e h fileName t of
             None \<Rightarrow> None
           | Some (h', t') \<Rightarrow> Some (h'\<lparr> files := assign fileName t' (files h') \<rparr>)))"
| "hostStep e h (FetchSettles fileName r) =
     (case map_of (files h) fileName of
        Some (AwaitFetch url) \<Rightarrow> Some (h\<lparr> files := assign fileName (Fulfilled r) (files h) \<rparr>)
      | _ \<Rightarrow> None)"
| "hostStep e h (FlatSettles pkgName l) =
     (case map_of (flatResult h) pkgName of
        Some None \<Rightarrow> Some (h\<lparr> flatResult := assign pkgName (Some l) (flatResult h) \<rparr>)
      | _ \<Rightarrow> None)"
| "hostStep e h GetVersion =
     Some (getVersion_suspend (length (drains h)) (h\<lparr> drains := drains h @ [Draining 0] \<rparr>))"
| "hostStep e h (VersionResume k) =
     (if k < length (drains h)
      then (case drains h ! k of
              Draining newFileSize \<Rightarrow>
                (case promiseAll (map snd (take newFileSize (files h))) of
                   StillPending \<Rightarrow> None
                 | Threw x \<Rightarrow> Some (h\<lparr> drains := (drains h)[k := Failed x] \<rparr>)
                 | Gave u \<Rightarrow>
                     Some (getVersion_suspend k
                             (if lastUpdateFilesSize h < newFileSize
                              then h\<lparr> lastUpdateFilesSize := newFileSize \<rparr> else h)))
            | _ \<Rightarrow> None)
      else None)"

fun hostRun :: "env \<Rightarrow> host \<Rightarrow> hostEvent list \<Rightarrow> host option" where
  "hostRun e h [] = Some h"
| "hostRun e h (ev # evs) =
     (case hostStep e h ev of None \<Rightarrow> None | Some h' \<Rightarrow> hostRun e h' evs)"

subsection \<open>Registration, memoization and requests\<close>

text \<open>
  \<open>firstPromise\<close> is the state in which the promise of a file is stored; \<open>evolves\<close> relates
  the entries of a state to those of a later one: none is removed or moved, and a settled
  one is not changed.
\<close>

definition firstPromise :: "env \<Rightarrow> string \<Rightarrow> promise" where
  "firstPromise e fileName = snd (fetchFile e emptyHost fileName)"

definition settled :: "promise \<Rightarrow> bool" where
  "settled t = (case t of Fulfilled v \<Rightarrow> True | Rejected x \<Rightarrow> True | _ \<Rightarrow> False)"

definition evolves :: "(string \<times> promise) list \<Rightarrow> (string \<times> promise) list \<Rightarrow> bool" where
  "evolves fs fs' =
     (length fs \<le> length fs' \<and>
      (\<forall>i < length fs. fst (fs' ! i) = fst (fs ! i) \<and>
                         (snd (fs' ! i) = snd (fs ! i) \<or> \<not> settled (snd (fs ! i)))))"

text \<open>
  \<open>registers e h h' d\<close>: \<open>h'\<close> is \<open>h\<close> with new entries, each for a file that had none, each
  of depth below \<open>d\<close> and holding the promise its \<^verbatim>\<open>fetchFile\<close> starts with; no request was sent.
\<close>

definition registers :: "env \<Rightarrow> host \<Rightarrow> host \<Rightarrow> nat \<Rightarrow> bool" where
  "registers e h h' d =
     (\<exists>new. files h' = files h @ new \<and> distinct (map fst new) \<and>
        (\<forall>(k, t) \<in> set new. k \<notin> fst ` set (files h) \<and> depth k < d \<and> t = firstPromise e k) \<and>
        (\<exists>more. flatResult h' = flatResult h @ more) \<and>
        lastUpdateFilesSize h' = lastUpdateFilesSize h \<and> fetched h' = fetched h \<and>
        drains h' = drains h \<and> answers h' = answers h)"

lemma assign_absent: "k \<notin> fst ` set kvs \<Longrightarrow> assign k v kvs = kvs @ [(k, v)]"
  by (induction kvs) auto

lemma map_of_assign: "map_of (assign k v kvs) = (map_of kvs)(k \<mapsto> v)"
  by (induction kvs) auto

lemma keys_assign_present: "k \<in> fst ` set kvs \<Longrightarrow> map fst (assign k v kvs) = map fst kvs"
proof (induction kvs)
  case Nil
  then show ?case by simp
next
  case (Cons x kvs)
  show ?case
  proof (cases "fst x = k")
    case True
    then show ?thesis by (cases x) simp
  next
    case False
    with Cons.prems have "k \<in> fst ` set kvs" by auto
    with Cons.IH False show ?thesis by (cases x) simp
  qed
qed

lemma evolves_refl: "evolves fs fs"
  by (simp add: evolves_def)

lemma evolves_append: "evolves fs (fs @ new)"
  by (simp add: evolves_def nth_append)

lemma evolves_trans: "evolves a b \<Longrightarrow> evolves b c \<Longrightarrow> evolves a c"
  unfolding evolves_def by (metis le_trans less_le_trans)

lemma evolves_assign:
  "map_of fs k = Some t \<Longrightarrow> \<not> settled t \<Longrightarrow> evolves fs (assign k v fs)"
proof (induction fs)
  case Nil
  then show ?case by simp
next
  case (Cons x fs)
  obtain k' v' where x: "x = (k', v')" by (cases x)
  show ?case
  proof (cases "k' = k")
    case True
    with Cons.prems x show ?thesis
      by (auto simp: evolves_def nth_Cons split: nat.splits)
  next
    case False
    with Cons x have "evolves fs (assign k v fs)" by simp
    with False x show ?thesis
      by (auto simp: evolves_def nth_Cons split: nat.splits)
  qed
qed

lemma snd_fetchFile: "snd (fetchFile e h fileName) = firstPromise e fileName"
  unfolding firstPromise_def
  by (simp add: fetchFile.simps[of e h] fetchFile.simps[of e emptyHost]
                fetchFile_flat_def fetchFile_request_def Let_def split: option.splits)

lemma registers_refl: "registers e h h d"
  by (simp add: registers_def)

lemma registers_mono:
  assumes "registers e h h' d" "d \<le> d'"
  shows "registers e h h' d'"
proof -
  from assms(1) obtain new more where
    n: "files h' = files h @ new" "distinct (map fst new)"
       "\<forall>(k, t) \<in> set new. k \<notin> fst ` set (files h) \<and> depth k < d \<and> t = firstPromise e k"
       "flatResult h' = flatResult h @ more"
       "lastUpdateFilesSize h' = lastUpdateFilesSize h" "fetched h' = fetched h"
       "drains h' = drains h" "answers h' = answers h"
    unfolding registers_def by blast
  from n(3) assms(2)
  have "\<forall>(k, t) \<in> set new. k \<notin> fst ` set (files h) \<and> depth k < d' \<and> t = firstPromise e k"
    by (auto intro: less_le_trans)
  with n(1,2,4-8) show ?thesis unfolding registers_def by blast
qed

lemma registers_flat: "registers e h (fst (fetchFile_flat h pkgName)) d"
  by (simp add: registers_def fetchFile_flat_def)

lemma registers_assign:
  assumes "registers e h h' (depth f)" "f \<notin> fst ` set (files h)"
  shows "registers e h (h'\<lparr> files := assign f (firstPromise e f) (files h') \<rparr>) (Suc (depth f))"
proof -
  from assms(1) obtain new more where
    n: "files h' = files h @ new" "distinct (map fst new)"
       "\<forall>(k, t) \<in> set new. k \<notin> fst ` set (files h) \<and> depth k < depth f \<and> t = firstPromise e k"
       "flatResult h' = flatResult h @ more"
       "lastUpdateFilesSize h' = lastUpdateFilesSize h" "fetched h' = fetched h"
       "drains h' = drains h" "answers h' = answers h"
    unfolding registers_def by blast
  from n(3) have "f \<notin> fst ` set new" by fastforce
  with assms(2) n(1) have "f \<notin> fst ` set (files h')" by auto
  then have a: "assign f (firstPromise e f) (files h') = files h @ (new @ [(f, firstPromise e f)])"
    using n(1) by (simp add: assign_absent)
  have b: "distinct (map fst (new @ [(f, firstPromise e f)]))"
    using n(2) \<open>f \<notin> fst ` set new\<close> by simp
  have c: "\<forall>(k, t) \<in> set (new @ [(f, firstPromise e f)]).
              k \<notin> fst ` set (files h) \<and> depth k < Suc (depth f) \<and> t = firstPromise e k"
    using n(3) assms(2) by (auto intro: less_SucI)
  show ?thesis
    unfolding registers_def
    using a b c n(4-8) by (intro exI[of _ "new @ [(f, firstPromise e f)]"]) simp
qed

lemma readFile_registers:
  shows "flat e \<Longrightarrow> registers e h (fst (readFile e h f)) (Suc (depth f))"
    and "flat e \<Longrightarrow> registers e h (fst (fetchFile e h f)) (depth f)"
proof (induction e h f and e h f rule: readFile_fetchFile.induct)
  case (1 e h fileName)
  show ?case
  proof (cases "served fileName \<and> map_of (files h) fileName = None")
    case True
    then have absent: "fileName \<notin> fst ` set (files h)"
      by (simp add: map_of_eq_None_iff)
    from True "1.IH" "1.prems" have r: "registers e h (fst (fetchFile e h fileName)) (depth fileName)"
      by simp
    obtain h' t where ft: "fetchFile e h fileName = (h', t)" by (cases "fetchFile e h fileName")
    with snd_fetchFile[of e h fileName] have t: "t = firstPromise e fileName" by simp
    from registers_assign[OF _ absent, of e h'] r ft t True show ?thesis
      by (simp add: readFile.simps[of e h fileName])
  next
    case False
    then show ?thesis
      by (auto simp: readFile.simps[of e h fileName] registers_refl)
  qed
next
  case (2 e h fileName)
  show ?case
  proof (cases "pkgNameOf fileName")
    case None
    with "2.prems" show ?thesis by (simp add: fetchFile.simps[of e h fileName] registers_refl)
  next
    case (Some p)
    show ?thesis
    proof (cases "\<not> (endsWith p ''.d.ts'' \<or> endsWith p ''/node_modules'')
         \<and> \<not> (startsWith p ''@typescript/'' \<or> startsWith p ''@types/typescript__'')
         \<and> startsWith p ''@types/''")
      case True
      with "2.IH"[OF "2.prems" Some] "2.prems"
      have "registers e h (fst (readFile e h (packageJsonOf (originalPkgNameOf p))))
              (Suc (depth (packageJsonOf (originalPkgNameOf p))))"
        by simp
      moreover from depth_decreases[OF Some] True
      have "Suc (depth (packageJsonOf (originalPkgNameOf p))) \<le> depth fileName" by simp
      ultimately have "registers e h (fst (readFile e h (packageJsonOf (originalPkgNameOf p))))
              (depth fileName)"
        by (rule registers_mono)
      with True Some "2.prems" show ?thesis
        by (simp add: fetchFile.simps[of e h fileName])
    next
      case False
      with Some "2.prems" show ?thesis
        by (auto simp: fetchFile.simps[of e h fileName] registers_refl registers_flat)
    qed
  qed
qed

text \<open>
  \<open>extends h h'\<close>: \<open>h'\<close> is \<open>h\<close> with new entries for files that had none; a request was
  sent for a new file only, and that file's promise awaits it.
\<close>

definition extends :: "host \<Rightarrow> host \<Rightarrow> bool" where
  "extends h h' =
     (\<exists>new sent. files h' = files h @ new \<and> distinct (map fst new) \<and>
        (\<forall>k \<in> fst ` set new. k \<notin> fst ` set (files h)) \<and>
        fetched h' = fetched h @ sent \<and> distinct (map fst sent) \<and>
        (\<forall>(f, u) \<in> set sent. (f, AwaitFetch u) \<in> set new) \<and>
        lastUpdateFilesSize h' = lastUpdateFilesSize h \<and>
        drains h' = drains h \<and> answers h' = answers h)"

lemma extends_refl: "extends h h"
  unfolding extends_def by (intro exI[of _ "[]"]) simp

lemma registers_extends:
  assumes "registers e h h' d"
  shows "extends h h'"
proof -
  from assms obtain new where
    n: "files h' = files h @ new" "distinct (map fst new)"
       "\<forall>(k, t) \<in> set new. k \<notin> fst ` set (files h) \<and> depth k < d \<and> t = firstPromise e k"
       "lastUpdateFilesSize h' = lastUpdateFilesSize h" "fetched h' = fetched h"
       "drains h' = drains h" "answers h' = answers h"
    unfolding registers_def by blast
  from n(3) have "\<forall>k \<in> fst ` set new. k \<notin> fst ` set (files h)" by fastforce
  with n(1,2,4-7) show ?thesis
    unfolding extends_def by (intro exI[of _ new] exI[of _ "[]"]) simp
qed

lemma readFile_noflat:
  assumes "\<not> flat e"
  shows "fst (readFile e h f) =
           (if served f \<and> map_of (files h) f = None
            then h\<lparr> fetched := fetched h @ [(f, requestUrl (cdn e) (versions e) f)],
                    files := files h @ [(f, AwaitFetch (requestUrl (cdn e) (versions e) f))] \<rparr>
            else h)"
proof (cases "served f \<and> map_of (files h) f = None")
  case True
  then have "f \<notin> fst ` set (files h)" by (simp add: map_of_eq_None_iff)
  with True assms show ?thesis
    by (simp add: readFile.simps[of e h f] fetchFile.simps[of e h f] fetchFile_request_def Let_def assign_absent)
next
  case False
  then show ?thesis
    by (auto simp: readFile.simps[of e h f])
qed

lemma readFile_extends: "extends h (fst (readFile e h f))"
proof (cases "flat e")
  case True
  from readFile_registers(1)[OF True] show ?thesis by (rule registers_extends)
next
  case False
  show ?thesis
  proof (cases "served f \<and> map_of (files h) f = None")
    case True
    then have "f \<notin> fst ` set (files h)" by (simp add: map_of_eq_None_iff)
    with True show ?thesis
      unfolding extends_def readFile_noflat[OF False]
      by (intro exI[of _ "[(f, AwaitFetch (requestUrl (cdn e) (versions e) f))]"]
                exI[of _ "[(f, requestUrl (cdn e) (versions e) f)]"]) simp
  next
    case False
    then have "fst (readFile e h f) = h"
      unfolding readFile_noflat[OF \<open>\<not> flat e\<close>] by (rule if_not_P)
    then show ?thesis by (simp add: extends_refl)
  qed
qed

lemma readFile_present:
  "served f \<Longrightarrow> f \<in> fst ` set (files (fst (readFile e h f)))"
proof (cases "map_of (files h) f = None")
  case True
  assume "served f"
  with True have "files (fst (readFile e h f)) =
      assign f (snd (fetchFile e h f)) (files (fst (fetchFile e h f)))"
    by (simp add: readFile.simps[of e h f] split: prod.splits)
  moreover have "f \<in> fst ` set (assign f t kvs)" for t and kvs :: "(string \<times> promise) list"
  proof -
    have "map_of (assign f t kvs) f = Some t" by (simp add: map_of_assign)
    then have "(f, t) \<in> set (assign f t kvs)" by (rule map_of_SomeD)
    then show ?thesis by (rule rev_image_eqI) simp
  qed
  ultimately show ?thesis by simp
next
  case False
  assume "served f"
  from False obtain y where y: "map_of (files h) f = Some y" by auto
  with \<open>served f\<close> have "fst (readFile e h f) = h"
    by (simp add: readFile.simps[of e h f])
  moreover from y have "(f, y) \<in> set (files h)" by (rule map_of_SomeD)
  then have "f \<in> fst ` set (files h)" by (rule rev_image_eqI) simp
  ultimately show ?thesis by simp
qed

lemma readFile_again:
  "readFile e (fst (readFile e h f)) f = readFile e h f"
proof (cases "served f")
  case True
  from readFile_present[OF True, of e h]
  obtain y where "map_of (files (fst (readFile e h f))) f = Some y"
    by (cases "map_of (files (fst (readFile e h f))) f") (auto simp: map_of_eq_None_iff)
  with True have "readFile e (fst (readFile e h f)) f = (fst (readFile e h f), True)"
    by (simp add: readFile.simps[of e "fst (readFile e h f)" f])
  moreover from True have "snd (readFile e h f) = True"
    by (simp add: readFile.simps[of e h f] split: prod.splits)
  ultimately show ?thesis by (simp add: prod_eq_iff)
next
  case False
  then have "readFile e h' f = (h', False)" for h'
    by (simp add: readFile.simps[of e h' f])
  then show ?thesis by simp
qed

text \<open>
  No file and no request is entered twice, and a file was requested only if its promise
  awaits the request or is fulfilled.
\<close>

definition fetch_ok :: "host \<Rightarrow> bool" where
  "fetch_ok h =
     (distinct (map fst (files h)) \<and> distinct (map fst (fetched h)) \<and>
      (\<forall>(f, u) \<in> set (fetched h).
         (f, AwaitFetch u) \<in> set (files h) \<or> (\<exists>v. (f, Fulfilled v) \<in> set (files h))))"

lemma set_assign:
  "distinct (map fst kvs) \<Longrightarrow> (k, t) \<in> set kvs \<Longrightarrow>
   set (assign k v kvs) = insert (k, v) (set kvs - {(k, t)})"
proof (induction kvs)
  case Nil
  then show ?case by simp
next
  case (Cons x kvs)
  obtain k' v' where x: "x = (k', v')" by (cases x)
  show ?case
  proof (cases "k' = k")
    case True
    with Cons.prems x have "v' = t" "(k, t) \<notin> set kvs"
      by (auto intro: rev_image_eqI)
    with True x show ?thesis by auto
  next
    case False
    with Cons x show ?thesis by auto
  qed
qed

lemma fetch_ok_extends:
  assumes "fetch_ok h" "extends h h'"
  shows "fetch_ok h'"
proof -
  from assms(2) obtain new sent where
    n: "files h' = files h @ new" "distinct (map fst new)"
       "\<forall>k \<in> fst ` set new. k \<notin> fst ` set (files h)"
       "fetched h' = fetched h @ sent" "distinct (map fst sent)"
       "\<forall>(f, u) \<in> set sent. (f, AwaitFetch u) \<in> set new"
    unfolding extends_def by blast
  from assms(1) have
    a: "distinct (map fst (files h))" "distinct (map fst (fetched h))"
       "\<forall>(f, u) \<in> set (fetched h).
          (f, AwaitFetch u) \<in> set (files h) \<or> (\<exists>v. (f, Fulfilled v) \<in> set (files h))"
    by (simp_all add: fetch_ok_def)
  have old: "f \<in> fst ` set (files h)" if "f \<in> fst ` set (fetched h)" for f
  proof -
    from that obtain u where "(f, u) \<in> set (fetched h)" by auto
    with a(3) have "(f, AwaitFetch u) \<in> set (files h) \<or> (\<exists>v. (f, Fulfilled v) \<in> set (files h))"
      by auto
    then show ?thesis by (auto intro: rev_image_eqI)
  qed
  have fresh: "f \<in> fst ` set new" if "f \<in> fst ` set sent" for f
  proof -
    from that obtain u where "(f, u) \<in> set sent" by auto
    with n(6) have "(f, AwaitFetch u) \<in> set new" by auto
    then show ?thesis by (rule rev_image_eqI) simp
  qed
  from n(3) have dj: "fst ` set (files h) \<inter> fst ` set new = {}" by blast
  have 1: "distinct (map fst (files h'))"
    using n(1,2) a(1) dj by simp
  from dj old fresh have "fst ` set (fetched h) \<inter> fst ` set sent = {}" by blast
  then have 2: "distinct (map fst (fetched h'))"
    using n(4,5) a(2) by simp
  have 3: "\<forall>(f, u) \<in> set (fetched h').
          (f, AwaitFetch u) \<in> set (files h') \<or> (\<exists>v. (f, Fulfilled v) \<in> set (files h'))"
    using n(1,4,6) a(3) by auto
  from 1 2 3 show ?thesis by (simp add: fetch_ok_def)
qed

lemma unfetched:
  assumes "fetch_ok h" "(f, t) \<in> set (files h)" "\<forall>u. t \<noteq> AwaitFetch u" "\<forall>v. t \<noteq> Fulfilled v"
  shows "f \<notin> fst ` set (fetched h)"
proof
  assume "f \<in> fst ` set (fetched h)"
  then obtain u where "(f, u) \<in> set (fetched h)" by auto
  with assms(1) have "(f, AwaitFetch u) \<in> set (files h) \<or> (\<exists>v. (f, Fulfilled v) \<in> set (files h))"
    by (auto simp: fetch_ok_def)
  moreover from assms(1) have "distinct (map fst (files h))" by (simp add: fetch_ok_def)
  ultimately have "t = AwaitFetch u \<or> (\<exists>v. t = Fulfilled v)"
    using assms(2) by (auto dest: eq_key_imp_eq_value)
  with assms(3,4) show False by auto
qed

lemma fetch_ok_assign:
  assumes "fetch_ok h" "(f, t) \<in> set (files h)" "\<forall>u. t \<noteq> AwaitFetch u" "\<forall>v. t \<noteq> Fulfilled v"
  shows "fetch_ok (h\<lparr> files := assign f t' (files h) \<rparr>)"
proof -
  from assms(1) have d: "distinct (map fst (files h))" by (simp add: fetch_ok_def)
  from unfetched[OF assms] have nf: "f \<notin> fst ` set (fetched h)" .
  from assms(2) have k: "f \<in> fst ` set (files h)" by (rule rev_image_eqI) simp
  have "(g, AwaitFetch u) \<in> set (assign f t' (files h)) \<or>
        (\<exists>v. (g, Fulfilled v) \<in> set (assign f t' (files h)))"
    if "(g, u) \<in> set (fetched h)" for g u
  proof -
    from that nf have "g \<noteq> f" by (auto intro: rev_image_eqI)
    moreover from that assms(1)
    have "(g, AwaitFetch u) \<in> set (files h) \<or> (\<exists>v. (g, Fulfilled v) \<in> set (files h))"
      by (auto simp: fetch_ok_def)
    ultimately show ?thesis unfolding set_assign[OF d assms(2)] by auto
  qed
  with assms(1) d k show ?thesis
    by (auto simp: fetch_ok_def keys_assign_present)
qed

lemma fetch_ok_request:
  assumes "fetch_ok h" "(f, t) \<in> set (files h)" "\<forall>u. t \<noteq> AwaitFetch u" "\<forall>v. t \<noteq> Fulfilled v"
  shows "fetch_ok (h\<lparr> fetched := fetched h @ [(f, u)],
                       files := assign f (AwaitFetch u) (files h) \<rparr>)"
proof -
  from assms(1) have d: "distinct (map fst (files h))" by (simp add: fetch_ok_def)
  from unfetched[OF assms] have nf: "f \<notin> fst ` set (fetched h)" .
  from fetch_ok_assign[OF assms, of "AwaitFetch u"]
  have a: "fetch_ok (h\<lparr> files := assign f (AwaitFetch u) (files h) \<rparr>)" .
  have "(f, AwaitFetch u) \<in> set (assign f (AwaitFetch u) (files h))"
    unfolding set_assign[OF d assms(2)] by simp
  with a nf show ?thesis by (auto simp: fetch_ok_def)
qed

lemma fetch_ok_fulfil:
  assumes "fetch_ok h" "(f, AwaitFetch u) \<in> set (files h)"
  shows "fetch_ok (h\<lparr> files := assign f (Fulfilled r) (files h) \<rparr>)"
proof -
  from assms(1) have d: "distinct (map fst (files h))" by (simp add: fetch_ok_def)
  from assms(2) have k: "f \<in> fst ` set (files h)" by (rule rev_image_eqI) simp
  have "(g, AwaitFetch w) \<in> set (assign f (Fulfilled r) (files h)) \<or>
        (\<exists>v. (g, Fulfilled v) \<in> set (assign f (Fulfilled r) (files h)))"
    if "(g, w) \<in> set (fetched h)" for g w
  proof (cases "g = f")
    case True
    then show ?thesis unfolding set_assign[OF d assms(2)] by auto
  next
    case False
    moreover from that assms(1)
    have "(g, AwaitFetch w) \<in> set (files h) \<or> (\<exists>v. (g, Fulfilled v) \<in> set (files h))"
      by (auto simp: fetch_ok_def)
    ultimately show ?thesis unfolding set_assign[OF d assms(2)] by auto
  qed
  with assms(1) d k show ?thesis
    by (auto simp: fetch_ok_def keys_assign_present)
qed

lemma extends_flat: "extends h (fst (fetchFile_flat h pkgName))"
  unfolding extends_def fetchFile_flat_def by (intro exI[of _ "[]"]) simp

lemma snd_fetchFile_flat [simp]: "snd (fetchFile_flat h pkgName) = AwaitFlat pkgName"
  by (simp add: fetchFile_flat_def)

lemma resume_cases:
  assumes "resume e h f t = Some (h1, t')"
  shows "\<not> settled t \<and> (\<forall>u. t \<noteq> AwaitFetch u) \<and>
         ((extends h h1 \<and> (\<forall>u. t' \<noteq> AwaitFetch u)) \<or>
          (\<exists>u. h1 = h\<lparr> fetched := fetched h @ [(f, u)] \<rparr> \<and> t' = AwaitFetch u))"
proof (cases t)
  case (AwaitManifest p orig)
  have flat: "extends h (fst (fetchFile_flat h p)) \<and> (\<forall>u. snd (fetchFile_flat h p) \<noteq> AwaitFetch u)"
    by (simp add: extends_flat)
  have idx: "extends h (fst (readFile e h (indexDtsOf orig)))" by (rule readFile_extends)
  from assms AwaitManifest flat idx show ?thesis
    by (auto simp: settled_def extends_refl prod_eq_iff
             split: awaited.splits option.splits if_splits json.splits)
next
  case (AwaitIndexDts p orig)
  have flat: "extends h (fst (fetchFile_flat h p)) \<and> (\<forall>u. snd (fetchFile_flat h p) \<noteq> AwaitFetch u)"
    by (simp add: extends_flat)
  from assms AwaitIndexDts flat show ?thesis
    by (auto simp: settled_def extends_refl prod_eq_iff
             split: awaited.splits option.splits if_splits)
next
  case (AwaitFlat p)
  with assms show ?thesis
    by (auto simp: settled_def extends_refl fetchFile_listing_def fetchFile_request_def Let_def
             split: option.splits listing.splits if_splits)
qed (use assms in auto)

lemma getVersion_suspend_simps [simp]:
  "files (getVersion_suspend k h) = files h"
  "fetched (getVersion_suspend k h) = fetched h"
  "flatResult (getVersion_suspend k h) = flatResult h"
  "lastUpdateFilesSize (getVersion_suspend k h) = lastUpdateFilesSize h"
  by (simp_all add: getVersion_suspend_def getVersion_test_def)

lemma extends_entry:
  assumes "extends h h1" "map_of (files h) f = Some t"
  shows "map_of (files h1) f = Some t" "(f, t) \<in> set (files h1)"
proof -
  from assms(1) obtain new where "files h1 = files h @ new" unfolding extends_def by blast
  with assms(2) show "map_of (files h1) f = Some t" by simp
  then show "(f, t) \<in> set (files h1)" by (rule map_of_SomeD)
qed

lemma step_Resume:
  assumes "hostStep e h (Resume f) = Some h'"
  shows "\<exists>t h1 t'. map_of (files h) f = Some t \<and> resume e h f t = Some (h1, t') \<and>
                    h' = h1\<lparr> files := assign f t' (files h1) \<rparr>"
proof (cases "map_of (files h) f")
  case None
  with assms show ?thesis by simp
next
  case (Some t)
  show ?thesis
  proof (cases "resume e h f t")
    case None
    with Some assms show ?thesis by simp
  next
    case r: (Some p)
    with Some assms show ?thesis by (cases p) auto
  qed
qed

lemma step_FetchSettles:
  assumes "hostStep e h (FetchSettles f r) = Some h'"
  shows "\<exists>u. map_of (files h) f = Some (AwaitFetch u) \<and>
             h' = h\<lparr> files := assign f (Fulfilled r) (files h) \<rparr>"
proof (cases "map_of (files h) f")
  case None
  with assms show ?thesis by simp
next
  case (Some t)
  with assms show ?thesis by (cases t) auto
qed

lemma step_FlatSettles:
  assumes "hostStep e h (FlatSettles p l) = Some h'"
  shows "h' = h\<lparr> flatResult := assign p (Some l) (flatResult h) \<rparr>"
proof (cases "map_of (flatResult h) p")
  case None
  with assms show ?thesis by simp
next
  case (Some a)
  with assms show ?thesis by (cases a) auto
qed

lemma step_GetVersion:
  assumes "hostStep e h GetVersion = Some h'"
  shows "h' = getVersion_suspend (length (drains h)) (h\<lparr> drains := drains h @ [Draining 0] \<rparr>)"
  using assms by simp

lemma step_VersionResume:
  assumes "hostStep e h (VersionResume k) = Some h'"
  shows "k < length (drains h) \<and>
         (\<exists>n. drains h ! k = Draining n \<and>
            ((\<exists>x. promiseAll (map snd (take n (files h))) = Threw x \<and>
                  h' = h\<lparr> drains := (drains h)[k := Failed x] \<rparr>) \<or>
             (promiseAll (map snd (take n (files h))) = Gave () \<and>
              h' = getVersion_suspend k
                     (if lastUpdateFilesSize h < n then h\<lparr> lastUpdateFilesSize := n \<rparr> else h))))"
proof (cases "k < length (drains h)")
  case False
  with assms show ?thesis by simp
next
  case True
  show ?thesis
  proof (cases "drains h ! k")
    case (Draining n)
    show ?thesis
    proof (cases "promiseAll (map snd (take n (files h)))")
      case StillPending
      with True Draining assms show ?thesis by simp
    next
      case (Gave u)
      with True Draining assms show ?thesis by simp
    next
      case (Threw x)
      with True Draining assms show ?thesis by simp
    qed
  next
    case (Answered n)
    with True assms show ?thesis by simp
  next
    case (Failed x)
    with True assms show ?thesis by simp
  qed
qed

lemma not_settled:
  "\<not> settled t \<Longrightarrow> (\<forall>v. t \<noteq> Fulfilled v) \<and> (\<forall>x. t \<noteq> Rejected x)"
  by (cases t) (simp_all add: settled_def)

lemma fetch_ok_resume:
  assumes "fetch_ok h" "map_of (files h) f = Some t" "resume e h f t = Some (h1, t')"
  shows "fetch_ok (h1\<lparr> files := assign f t' (files h1) \<rparr>)"
proof -
  from resume_cases[OF assms(3)] have ns: "\<not> settled t" and nf: "\<forall>u. t \<noteq> AwaitFetch u"
    and c: "(extends h h1 \<and> (\<forall>u. t' \<noteq> AwaitFetch u)) \<or>
            (\<exists>u. h1 = h\<lparr> fetched := fetched h @ [(f, u)] \<rparr> \<and> t' = AwaitFetch u)"
    by blast+
  from not_settled[OF ns] have nv: "\<forall>v. t \<noteq> Fulfilled v" by blast
  from c show ?thesis
  proof
    assume a: "extends h h1 \<and> (\<forall>u. t' \<noteq> AwaitFetch u)"
    then have x: "extends h h1" by blast
    from fetch_ok_extends[OF assms(1) x] have "fetch_ok h1" .
    from fetch_ok_assign[OF this extends_entry(2)[OF x assms(2)] nf nv] show ?thesis .
  next
    assume "\<exists>u. h1 = h\<lparr> fetched := fetched h @ [(f, u)] \<rparr> \<and> t' = AwaitFetch u"
    then obtain u where u: "h1 = h\<lparr> fetched := fetched h @ [(f, u)] \<rparr>" "t' = AwaitFetch u"
      by blast
    from assms(2) have "(f, t) \<in> set (files h)" by (rule map_of_SomeD)
    from fetch_ok_request[OF assms(1) this nf nv, of u] show ?thesis
      unfolding u by simp
  qed
qed

lemma fetch_ok_step:
  assumes "fetch_ok h" "hostStep e h ev = Some h'"
  shows "fetch_ok h'"
proof (cases ev)
  case (ReadFile f)
  with assms(2) have "h' = fst (readFile e h f)" by simp
  with fetch_ok_extends[OF assms(1) readFile_extends[of h e f]] show ?thesis by simp
next
  case (Resume f)
  from step_Resume[OF assms(2)[unfolded Resume]] obtain t h1 t' where
    t: "map_of (files h) f = Some t" and r: "resume e h f t = Some (h1, t')"
    and h': "h' = h1\<lparr> files := assign f t' (files h1) \<rparr>"
    by blast
  from fetch_ok_resume[OF assms(1) t r] h' show ?thesis by simp
next
  case (FetchSettles f r)
  from step_FetchSettles[OF assms(2)[unfolded FetchSettles]]
  obtain u where u: "map_of (files h) f = Some (AwaitFetch u)"
    and h': "h' = h\<lparr> files := assign f (Fulfilled r) (files h) \<rparr>"
    by blast
  from u have "(f, AwaitFetch u) \<in> set (files h)" by (rule map_of_SomeD)
  from fetch_ok_fulfil[OF assms(1) this] h' show ?thesis by simp
next
  case (FlatSettles p l)
  from step_FlatSettles[OF assms(2)[unfolded FlatSettles]]
  have "files h' = files h" "fetched h' = fetched h" by simp_all
  with assms(1) show ?thesis by (simp add: fetch_ok_def)
next
  case GetVersion
  from step_GetVersion[OF assms(2)[unfolded GetVersion]]
  have "files h' = files h" "fetched h' = fetched h" by simp_all
  with assms(1) show ?thesis by (simp add: fetch_ok_def)
next
  case (VersionResume k)
  from step_VersionResume[OF assms(2)[unfolded VersionResume]]
  have "files h' = files h \<and> fetched h' = fetched h"
    by (elim conjE exE disjE) simp_all
  with assms(1) show ?thesis by (simp add: fetch_ok_def)
qed

lemma fetch_ok_run: "fetch_ok h \<Longrightarrow> hostRun e h evs = Some h' \<Longrightarrow> fetch_ok h'"
proof (induction evs arbitrary: h)
  case Nil
  then show ?case by simp
next
  case (Cons ev evs)
  then show ?case by (auto split: option.splits dest: fetch_ok_step)
qed

lemma fetch_ok_empty: "fetch_ok emptyHost"
  by (simp add: fetch_ok_def emptyHost_def)

subsection \<open>The version\<close>

text \<open>
  The first \<^verbatim>\<open>lastUpdateFilesSize\<close> entries are fulfilled, and the numbers returned so far
  are in ascending order and at most the number of entries.
\<close>

definition drain_ok :: "host \<Rightarrow> bool" where
  "drain_ok h =
     (lastUpdateFilesSize h \<le> length (files h) \<and>
      (\<forall>i < lastUpdateFilesSize h. \<exists>v. snd (files h ! i) = Fulfilled v) \<and>
      (\<forall>d \<in> set (drains h). \<forall>n. d = Draining n \<longrightarrow> n \<le> length (files h)) \<and>
      sorted (answers h) \<and> (\<forall>a \<in> set (answers h). a \<le> length (files h)))"

lemma drain_ok_evolves:
  assumes "drain_ok h" "evolves (files h) (files h')"
    and "lastUpdateFilesSize h' = lastUpdateFilesSize h"
    and "drains h' = drains h" "answers h' = answers h"
  shows "drain_ok h'"
proof -
  from assms(2) have len: "length (files h) \<le> length (files h')"
    and keep: "\<And>i. i < length (files h) \<Longrightarrow>
                 snd (files h' ! i) = snd (files h ! i) \<or> \<not> settled (snd (files h ! i))"
    by (simp_all add: evolves_def)
  have "\<exists>v. snd (files h' ! i) = Fulfilled v" if "i < lastUpdateFilesSize h" for i
  proof -
    from that assms(1) obtain v where v: "snd (files h ! i) = Fulfilled v" "i < length (files h)"
      by (auto simp: drain_ok_def)
    with keep[of i] show ?thesis by (simp add: settled_def)
  qed
  with assms(1,3-5) len show ?thesis
    by (fastforce simp: drain_ok_def)
qed

lemma resume_grown:
  assumes "resume e h f t = Some (h1, t')"
  shows "\<not> settled t \<and> (\<exists>new. files h1 = files h @ new) \<and>
         lastUpdateFilesSize h1 = lastUpdateFilesSize h \<and>
         drains h1 = drains h \<and> answers h1 = answers h"
proof -
  from resume_cases[OF assms] have ns: "\<not> settled t"
    and c: "extends h h1 \<or> (\<exists>u. h1 = h\<lparr> fetched := fetched h @ [(f, u)] \<rparr>)"
    by blast+
  from c have "(\<exists>new. files h1 = files h @ new) \<and>
         lastUpdateFilesSize h1 = lastUpdateFilesSize h \<and>
         drains h1 = drains h \<and> answers h1 = answers h"
  proof
    assume "extends h h1"
    then show ?thesis unfolding extends_def by blast
  next
    assume "\<exists>u. h1 = h\<lparr> fetched := fetched h @ [(f, u)] \<rparr>"
    then obtain u where "h1 = h\<lparr> fetched := fetched h @ [(f, u)] \<rparr>" by blast
    then have "files h1 = files h @ []" "lastUpdateFilesSize h1 = lastUpdateFilesSize h"
      "drains h1 = drains h" "answers h1 = answers h" by simp_all
    then show ?thesis by blast
  qed
  with ns show ?thesis by blast
qed

lemma resume_evolves:
  assumes "map_of (files h) f = Some t" "resume e h f t = Some (h1, t')"
  shows "evolves (files h) (assign f t' (files h1))"
proof -
  from resume_grown[OF assms(2)] obtain new where
    ns: "\<not> settled t" and n: "files h1 = files h @ new"
    by blast
  from n assms(1) have "map_of (files h1) f = Some t" by simp
  from evolves_assign[OF this ns] have "evolves (files h1) (assign f t' (files h1))" .
  moreover from n have "evolves (files h) (files h1)" by (simp add: evolves_append)
  ultimately show ?thesis using evolves_trans by blast
qed

lemma step_evolves:
  assumes "hostStep e h ev = Some h'"
  shows "evolves (files h) (files h')"
proof (cases ev)
  case (ReadFile f)
  with assms have "h' = fst (readFile e h f)" by simp
  with readFile_extends[of h e f] show ?thesis
    unfolding extends_def by (auto simp: evolves_append)
next
  case (Resume f)
  from step_Resume[OF assms[unfolded Resume]] obtain t h1 t' where
    t: "map_of (files h) f = Some t" and r: "resume e h f t = Some (h1, t')"
    and h': "h' = h1\<lparr> files := assign f t' (files h1) \<rparr>"
    by blast
  from resume_evolves[OF t r] h' show ?thesis by simp
next
  case (FetchSettles f r)
  from step_FetchSettles[OF assms[unfolded FetchSettles]]
  obtain u where u: "map_of (files h) f = Some (AwaitFetch u)"
    and h': "h' = h\<lparr> files := assign f (Fulfilled r) (files h) \<rparr>"
    by blast
  have "\<not> settled (AwaitFetch u)" by (simp add: settled_def)
  from evolves_assign[OF u this] h' show ?thesis by simp
next
  case (FlatSettles p l)
  from step_FlatSettles[OF assms[unfolded FlatSettles]] show ?thesis
    by (simp add: evolves_refl)
next
  case GetVersion
  from step_GetVersion[OF assms[unfolded GetVersion]] show ?thesis
    by (simp add: evolves_refl)
next
  case (VersionResume k)
  from step_VersionResume[OF assms[unfolded VersionResume]]
  have "files h' = files h" by (elim conjE exE disjE) simp_all
  then show ?thesis by (simp add: evolves_refl)
qed

lemma promiseAll_Gave:
  "promiseAll ts = Gave u \<Longrightarrow> \<forall>t \<in> set ts. \<exists>v. t = Fulfilled v"
  by (induction ts rule: promiseAll.induct) (auto split: awaited.splits)

lemma drain_ok_suspend:
  assumes "drain_ok h"
  shows "drain_ok (getVersion_suspend k h)"
proof -
  have d: "\<forall>d \<in> set ((drains h)[k := d0]). \<forall>n. d = Draining n \<longrightarrow> n \<le> length (files h)"
    if "\<forall>n. d0 = Draining n \<longrightarrow> n \<le> length (files h)" for d0
    using assms that set_update_subset_insert[of "drains h" k d0]
    by (auto simp: drain_ok_def)
  show ?thesis
  proof (cases "length (files h) = lastUpdateFilesSize h")
    case True
    then have g: "getVersion_suspend k h =
        h\<lparr> drains := (drains h)[k := Answered (length (files h))],
            answers := answers h @ [length (files h)] \<rparr>"
      by (simp add: getVersion_suspend_def getVersion_test_def)
    from assms have "sorted (answers h @ [length (files h)])"
      by (auto simp: drain_ok_def sorted_append)
    with assms d[of "Answered (length (files h))"] show ?thesis
      unfolding g by (simp add: drain_ok_def)
  next
    case False
    then have g: "getVersion_suspend k h =
        h\<lparr> drains := (drains h)[k := Draining (length (files h))] \<rparr>"
      by (simp add: getVersion_suspend_def getVersion_test_def)
    from assms d[of "Draining (length (files h))"] show ?thesis
      unfolding g by (simp add: drain_ok_def)
  qed
qed

lemma drain_ok_step:
  assumes "drain_ok h" "hostStep e h ev = Some h'"
  shows "drain_ok h'"
proof (cases ev)
  case (ReadFile f)
  with assms(2) have "h' = fst (readFile e h f)" by simp
  with readFile_extends[of h e f] have "extends h h'" by simp
  then have "lastUpdateFilesSize h' = lastUpdateFilesSize h" "drains h' = drains h"
    "answers h' = answers h" unfolding extends_def by auto
  with drain_ok_evolves[OF assms(1) step_evolves[OF assms(2)]] show ?thesis by simp
next
  case (Resume f)
  from step_Resume[OF assms(2)[unfolded Resume]] obtain t h1 t' where
    r: "resume e h f t = Some (h1, t')"
    and h': "h' = h1\<lparr> files := assign f t' (files h1) \<rparr>"
    by blast
  from resume_grown[OF r] h' have "lastUpdateFilesSize h' = lastUpdateFilesSize h"
    "drains h' = drains h" "answers h' = answers h" by simp_all
  with drain_ok_evolves[OF assms(1) step_evolves[OF assms(2)]] show ?thesis by simp
next
  case (FetchSettles f r)
  from step_FetchSettles[OF assms(2)[unfolded FetchSettles]]
  have "lastUpdateFilesSize h' = lastUpdateFilesSize h"
    "drains h' = drains h" "answers h' = answers h" by auto
  with drain_ok_evolves[OF assms(1) step_evolves[OF assms(2)]] show ?thesis by simp
next
  case (FlatSettles p l)
  from step_FlatSettles[OF assms(2)[unfolded FlatSettles]]
  have "lastUpdateFilesSize h' = lastUpdateFilesSize h"
    "drains h' = drains h" "answers h' = answers h" by simp_all
  with drain_ok_evolves[OF assms(1) step_evolves[OF assms(2)]] show ?thesis by simp
next
  case GetVersion
  from assms(1) have "drain_ok (h\<lparr> drains := drains h @ [Draining 0] \<rparr>)"
    by (simp add: drain_ok_def)
  from drain_ok_suspend[OF this] step_GetVersion[OF assms(2)[unfolded GetVersion]]
  show ?thesis by simp
next
  case (VersionResume k)
  from step_VersionResume[OF assms(2)[unfolded VersionResume]] obtain n where
    k: "k < length (drains h)" and n: "drains h ! k = Draining n"
    and c: "(\<exists>x. promiseAll (map snd (take n (files h))) = Threw x \<and>
                  h' = h\<lparr> drains := (drains h)[k := Failed x] \<rparr>) \<or>
             (promiseAll (map snd (take n (files h))) = Gave () \<and>
              h' = getVersion_suspend k
                     (if lastUpdateFilesSize h < n then h\<lparr> lastUpdateFilesSize := n \<rparr> else h))"
    by blast
  from k n have "Draining n \<in> set (drains h)" by (metis nth_mem)
  with assms(1) have nle: "n \<le> length (files h)" by (simp add: drain_ok_def)
  from c show ?thesis
  proof
    assume "\<exists>x. promiseAll (map snd (take n (files h))) = Threw x \<and>
                  h' = h\<lparr> drains := (drains h)[k := Failed x] \<rparr>"
    then obtain x where h': "h' = h\<lparr> drains := (drains h)[k := Failed x] \<rparr>" by blast
    have "\<forall>d \<in> set ((drains h)[k := Failed x]). \<forall>m. d = Draining m \<longrightarrow> m \<le> length (files h)"
      using assms(1) set_update_subset_insert[of "drains h" k "Failed x"]
      by (auto simp: drain_ok_def)
    with assms(1) show ?thesis unfolding h' by (simp add: drain_ok_def)
  next
    assume g: "promiseAll (map snd (take n (files h))) = Gave () \<and>
              h' = getVersion_suspend k
                     (if lastUpdateFilesSize h < n then h\<lparr> lastUpdateFilesSize := n \<rparr> else h)"
    have full: "\<exists>v. snd (files h ! i) = Fulfilled v" if "i < n" for i
    proof -
      from that nle have "take n (files h) ! i = files h ! i" "i < length (take n (files h))"
        by simp_all
      then have "files h ! i \<in> set (take n (files h))" by (metis nth_mem)
      then have "snd (files h ! i) \<in> set (map snd (take n (files h)))" by simp
      with promiseAll_Gave g show ?thesis by blast
    qed
    have "drain_ok (if lastUpdateFilesSize h < n then h\<lparr> lastUpdateFilesSize := n \<rparr> else h)"
      using assms(1) nle full by (simp add: drain_ok_def)
    from drain_ok_suspend[OF this] g show ?thesis by simp
  qed
qed

lemma drain_ok_empty: "drain_ok emptyHost"
  by (simp add: drain_ok_def emptyHost_def)

lemma drain_ok_run: "drain_ok h \<Longrightarrow> hostRun e h evs = Some h' \<Longrightarrow> drain_ok h'"
proof (induction evs arbitrary: h)
  case Nil
  then show ?case by simp
next
  case (Cons ev evs)
  then show ?case by (auto split: option.splits dest: drain_ok_step)
qed

lemma settled_stays:
  assumes "evolves fs fs'" "distinct (map fst fs')" "map_of fs f = Some t" "settled t"
  shows "map_of fs' f = Some t"
proof -
  from assms(3) have "(f, t) \<in> set fs" by (rule map_of_SomeD)
  then obtain i where i: "i < length fs" "fs ! i = (f, t)" by (auto simp: in_set_conv_nth)
  with assms(1,4) have "fst (fs' ! i) = f" "snd (fs' ! i) = t" "i < length fs'"
    by (auto simp: evolves_def)
  then have "(f, t) \<in> set fs'" by (metis nth_mem prod.collapse)
  with assms(2) show ?thesis by simp
qed

lemma answers_suspend:
  "answers (getVersion_suspend k h) =
     (if length (files h) = lastUpdateFilesSize h then answers h @ [length (files h)]
      else answers h)"
  by (simp add: getVersion_suspend_def getVersion_test_def)

lemma answers_step:
  assumes "hostStep e h ev = Some h'" "answers h' \<noteq> answers h"
  shows "answers h' = answers h @ [length (files h')] \<and>
         length (files h') = lastUpdateFilesSize h'"
proof (cases ev)
  case (ReadFile f)
  with assms(1) have "h' = fst (readFile e h f)" by simp
  with readFile_extends[of h e f] have "answers h' = answers h"
    unfolding extends_def by auto
  with assms(2) show ?thesis by simp
next
  case (Resume f)
  from step_Resume[OF assms(1)[unfolded Resume]] obtain t h1 t' where
    r: "resume e h f t = Some (h1, t')"
    and h': "h' = h1\<lparr> files := assign f t' (files h1) \<rparr>"
    by blast
  from resume_grown[OF r] h' have "answers h' = answers h" by simp
  with assms(2) show ?thesis by simp
next
  case (FetchSettles f r)
  from step_FetchSettles[OF assms(1)[unfolded FetchSettles]]
  have "answers h' = answers h" by auto
  with assms(2) show ?thesis by simp
next
  case (FlatSettles p l)
  from step_FlatSettles[OF assms(1)[unfolded FlatSettles]]
  have "answers h' = answers h" by simp
  with assms(2) show ?thesis by simp
next
  case GetVersion
  from step_GetVersion[OF assms(1)[unfolded GetVersion]] assms(2) show ?thesis
    by (simp add: answers_suspend split: if_splits)
next
  case (VersionResume k)
  from step_VersionResume[OF assms(1)[unfolded VersionResume]] obtain n where
    c: "(\<exists>x. h' = h\<lparr> drains := (drains h)[k := Failed x] \<rparr>) \<or>
        h' = getVersion_suspend k
               (if lastUpdateFilesSize h < n then h\<lparr> lastUpdateFilesSize := n \<rparr> else h)"
    by blast
  from c show ?thesis
  proof
    assume "\<exists>x. h' = h\<lparr> drains := (drains h)[k := Failed x] \<rparr>"
    then have "answers h' = answers h" by auto
    with assms(2) show ?thesis by simp
  next
    assume "h' = getVersion_suspend k
               (if lastUpdateFilesSize h < n then h\<lparr> lastUpdateFilesSize := n \<rparr> else h)"
    with assms(2) show ?thesis
      by (simp add: answers_suspend split: if_splits)
  qed
qed

text \<open>
  Claim C8. In every reachable state and for every step: the numbers \<^verbatim>\<open>getVersion\<close> has
  returned, in the order in which it returned them (the order in which its callers see
  them, and the order of the calls when they are made one after the other), are
  ascending, so a call that returns later never returns less; and when the step makes a
  call return, the number is the number of entries of \<^verbatim>\<open>files\<close> and every entry is
  fulfilled: the call has awaited all pending entries, those registered while it was
  draining too (lines 269-276).
\<close>

theorem getVersion_monotone:
  assumes "hostRun e emptyHost evs = Some h" and "hostStep e h ev = Some h'"
  shows "sorted (answers h') \<and>
         (answers h' \<noteq> answers h \<longrightarrow>
            answers h' = answers h @ [length (files h')] \<and>
            (\<forall>t \<in> snd ` set (files h'). \<exists>v. t = Fulfilled v))"
proof -
  from drain_ok_step[OF drain_ok_run[OF drain_ok_empty assms(1)] assms(2)]
  have ok: "drain_ok h'" .
  then have s: "sorted (answers h')" by (simp add: drain_ok_def)
  have "\<forall>t \<in> snd ` set (files h'). \<exists>v. t = Fulfilled v"
    if "length (files h') = lastUpdateFilesSize h'"
  proof
    fix t assume "t \<in> snd ` set (files h')"
    then obtain i where "i < length (files h')" "t = snd (files h' ! i)"
      by (auto simp: in_set_conv_nth)
    with ok that show "\<exists>v. t = Fulfilled v" by (simp add: drain_ok_def)
  qed
  with answers_step[OF assms(2)] s show ?thesis by blast
qed

text \<open>A host without listing function, pinning \<^verbatim>\<open>lodash\<close>, and a trace with two calls of \<^verbatim>\<open>getVersion\<close>.\<close>

definition direct :: env where
  "direct = \<lparr> cdn = ''https://cdn.example/'', versions = [(''lodash'', ''4.17.21'')],
               flat = False, JSON_parse = (\<lambda>s. None) \<rparr>"

definition drain_trace :: "hostEvent list" where
  "drain_trace =
     [GetVersion, ReadFile ''/node_modules/lodash/index.d.ts'', GetVersion,
      FetchSettles ''/node_modules/lodash/index.d.ts'' (Some ''export {}'')]"

lemma drain_run:
  "hostRun direct emptyHost drain_trace =
     Some \<lparr> files = [(''/node_modules/lodash/index.d.ts'', Fulfilled (Some ''export {}''))],
            flatResult = [], lastUpdateFilesSize = 0,
            fetched = [(''/node_modules/lodash/index.d.ts'',
                        ''https://cdn.example/lodash@4.17.21/index.d.ts'')],
            drains = [Answered 0, Draining 1], answers = [0] \<rparr>"
  by code_simp

lemma drain_next:
  "hostStep direct
     \<lparr> files = [(''/node_modules/lodash/index.d.ts'', Fulfilled (Some ''export {}''))],
       flatResult = [], lastUpdateFilesSize = 0,
       fetched = [(''/node_modules/lodash/index.d.ts'',
                   ''https://cdn.example/lodash@4.17.21/index.d.ts'')],
       drains = [Answered 0, Draining 1], answers = [0] \<rparr>
     (VersionResume 1) =
     Some \<lparr> files = [(''/node_modules/lodash/index.d.ts'', Fulfilled (Some ''export {}''))],
            flatResult = [], lastUpdateFilesSize = 1,
            fetched = [(''/node_modules/lodash/index.d.ts'',
                        ''https://cdn.example/lodash@4.17.21/index.d.ts'')],
            drains = [Answered 0, Answered 1], answers = [0, 1] \<rparr>"
  by code_simp

text \<open>
  Claim C8, witness: the first call returns 0 at once; the second awaits the file read
  meanwhile and returns 1.
\<close>

theorem getVersion_monotone_witness:
  "answers (the (hostRun direct emptyHost drain_trace)) = [0] \<and>
   answers (the (hostStep direct (the (hostRun direct emptyHost drain_trace)) (VersionResume 1)))
     = [0, 1] \<and>
   sorted (answers
     (the (hostStep direct (the (hostRun direct emptyHost drain_trace)) (VersionResume 1))))"
proof -
  have a: "hostRun direct emptyHost drain_trace = Some (the (hostRun direct emptyHost drain_trace))"
    by (simp add: drain_run)
  have b: "hostStep direct (the (hostRun direct emptyHost drain_trace)) (VersionResume 1) =
      Some (the (hostStep direct (the (hostRun direct emptyHost drain_trace)) (VersionResume 1)))"
    by (simp only: drain_run option.sel drain_next)
  from getVersion_monotone[OF a b] show ?thesis
    unfolding drain_run option.sel drain_next by simp
qed

lemma evolves_keys:
  assumes "evolves fs fs'" "k \<in> fst ` set fs"
  shows "k \<in> fst ` set fs'"
proof -
  from assms(2) obtain i where i: "i < length fs" "fst (fs ! i) = k"
    by (auto simp: in_set_conv_nth)
  with assms(1) have "i < length fs'" "fst (fs' ! i) = k"
    by (auto simp: evolves_def)
  then show ?thesis by (metis nth_mem image_eqI)
qed

lemma readFile_known:
  assumes "f \<in> fst ` set (files h)"
  shows "fst (readFile e h f) = h"
proof -
  from assms obtain y where "map_of (files h) f = Some y"
    by (cases "map_of (files h) f") (auto simp: map_of_eq_None_iff)
  then show ?thesis by (simp add: readFile.simps[of e h f])
qed

text \<open>
  Claim C7. In every reachable state, a second \<^verbatim>\<open>readFile\<close> of a file returns the same
  promise and changes nothing (the entry made by the first is found, line 285); a file
  that has an entry keeps it through every step, and \<^verbatim>\<open>readFile\<close> of such a file starts no
  \<^verbatim>\<open>fetchFile\<close>; the file names of \<^verbatim>\<open>files\<close> are distinct; no file was requested twice;
  and a settled entry is never changed by a later step, so all callers get the one
  terminal value.
\<close>

theorem read_is_memoized:
  assumes "hostRun e emptyHost evs = Some h"
  shows "readFile e (fst (readFile e h f)) f = readFile e h f \<and>
         (f \<in> fst ` set (files h) \<longrightarrow> fst (readFile e h f) = h) \<and>
         distinct (map fst (files h)) \<and> distinct (map fst (fetched h)) \<and>
         (\<forall>ev h'. hostStep e h ev = Some h' \<and> f \<in> fst ` set (files h)
            \<longrightarrow> f \<in> fst ` set (files h')) \<and>
         (\<forall>ev h' t. hostStep e h ev = Some h' \<and> map_of (files h) f = Some t \<and> settled t
            \<longrightarrow> map_of (files h') f = Some t)"
proof -
  from fetch_ok_run[OF fetch_ok_empty assms] have ok: "fetch_ok h" .
  have "map_of (files h') f = Some t"
    if "hostStep e h ev = Some h'" "map_of (files h) f = Some t" "settled t" for ev h' t
  proof -
    from fetch_ok_step[OF ok that(1)] have "distinct (map fst (files h'))"
      by (simp add: fetch_ok_def)
    from settled_stays[OF step_evolves[OF that(1)] this that(2,3)] show ?thesis .
  qed
  then have a: "\<forall>ev h' t. hostStep e h ev = Some h' \<and> map_of (files h) f = Some t \<and> settled t
            \<longrightarrow> map_of (files h') f = Some t"
    by blast
  have "f \<in> fst ` set (files h')"
    if "hostStep e h ev = Some h'" "f \<in> fst ` set (files h)" for ev h'
    using evolves_keys[OF step_evolves[OF that(1)] that(2)] .
  then have b: "\<forall>ev h'. hostStep e h ev = Some h' \<and> f \<in> fst ` set (files h)
            \<longrightarrow> f \<in> fst ` set (files h')"
    by blast
  from ok have c: "distinct (map fst (files h))" "distinct (map fst (fetched h))"
    by (simp_all add: fetch_ok_def)
  have d: "f \<in> fst ` set (files h) \<longrightarrow> fst (readFile e h f) = h"
    by (simp add: readFile_known)
  from a b c d readFile_again[of e h f] show ?thesis by blast
qed

text \<open>Claim C7, witness: a file read once, fetched once, and read again.\<close>

theorem read_is_memoized_witness:
  "readFile direct (fst (readFile direct (the (hostRun direct emptyHost drain_trace))
       ''/node_modules/lodash/index.d.ts'')) ''/node_modules/lodash/index.d.ts'' =
     (the (hostRun direct emptyHost drain_trace), True) \<and>
   map fst (fetched (the (hostRun direct emptyHost drain_trace))) =
     [''/node_modules/lodash/index.d.ts'']"
proof -
  have a: "hostRun direct emptyHost drain_trace = Some (the (hostRun direct emptyHost drain_trace))"
    by (simp add: drain_run)
  have b: "readFile direct (the (hostRun direct emptyHost drain_trace))
             ''/node_modules/lodash/index.d.ts'' =
           (the (hostRun direct emptyHost drain_trace), True)"
    unfolding drain_run by code_simp
  from read_is_memoized[OF a, of "''/node_modules/lodash/index.d.ts''"] b show ?thesis
    unfolding drain_run option.sel by simp
qed

subsection \<open>The redundancy check of types packages\<close>

text \<open>
  What lines 313-322 find in a state: the manifest of the original package was read as a
  text that is not empty and parses to a value other than \<^verbatim>\<open>null\<close>, whose \<^verbatim>\<open>types\<close> or
  \<^verbatim>\<open>typings\<close> is truthy (\<open>declaresTypes\<close>) or not (\<open>plainManifest\<close>); in the second case,
  \<^verbatim>\<open>index.d.ts\<close> of the package was read as a text that is not empty (\<open>shipsIndexDts\<close>).
\<close>

definition declaresTypes :: "env \<Rightarrow> host \<Rightarrow> string \<Rightarrow> bool" where
  "declaresTypes e h originalPkgName =
     (case awaitFile h (packageJsonOf originalPkgName) of
        Gave (Some packageJson) \<Rightarrow>
          packageJson \<noteq> [] \<and>
          (case JSON_parse e packageJson of
             None \<Rightarrow> False
           | Some JNull \<Rightarrow> False
           | Some obj \<Rightarrow> truthy (member obj ''types'') \<or> truthy (member obj ''typings''))
      | _ \<Rightarrow> False)"

definition plainManifest :: "env \<Rightarrow> host \<Rightarrow> string \<Rightarrow> bool" where
  "plainManifest e h originalPkgName =
     (case awaitFile h (packageJsonOf originalPkgName) of
        Gave (Some packageJson) \<Rightarrow>
          packageJson \<noteq> [] \<and>
          (case JSON_parse e packageJson of
             None \<Rightarrow> False
           | Some JNull \<Rightarrow> False
           | Some obj \<Rightarrow> \<not> (truthy (member obj ''types'') \<or> truthy (member obj ''typings'')))
      | _ \<Rightarrow> False)"

definition shipsIndexDts :: "env \<Rightarrow> host \<Rightarrow> string \<Rightarrow> bool" where
  "shipsIndexDts e h originalPkgName =
     (plainManifest e h originalPkgName \<and>
      (case awaitFile h (indexDtsOf originalPkgName) of
         Gave (Some indexDts) \<Rightarrow> indexDts \<noteq> []
       | _ \<Rightarrow> False))"

definition redundant :: "env \<Rightarrow> host \<Rightarrow> string \<Rightarrow> bool" where
  "redundant e h originalPkgName =
     (declaresTypes e h originalPkgName \<or> shipsIndexDts e h originalPkgName)"

text \<open>
  \<open>passed e h o\<close>: the redundancy check for the original package \<open>o\<close> is over in \<open>h\<close>, and it
  did not end in "redundant": the manifest is settled, and it is rejected, empty,
  malformed, null, or without a truthy field while \<^verbatim>\<open>index.d.ts\<close> is settled and rejected or
  empty.
\<close>

definition passed :: "env \<Rightarrow> host \<Rightarrow> string \<Rightarrow> bool" where
  "passed e h originalPkgName =
     (packageJsonOf originalPkgName \<in> fst ` set (files h) \<and>
      (case awaitFile h (packageJsonOf originalPkgName) of
         StillPending \<Rightarrow> False
       | Threw x \<Rightarrow> True
       | Gave None \<Rightarrow> True
       | Gave (Some packageJson) \<Rightarrow>
           packageJson = [] \<or>
           (case JSON_parse e packageJson of
              None \<Rightarrow> True
            | Some JNull \<Rightarrow> True
            | Some obj \<Rightarrow>
                plainManifest e h originalPkgName \<and>
                indexDtsOf originalPkgName \<in> fst ` set (files h) \<and>
                (case awaitFile h (indexDtsOf originalPkgName) of
                   StillPending \<Rightarrow> False
                 | Threw x \<Rightarrow> True
                 | Gave None \<Rightarrow> True
                 | Gave (Some indexDts) \<Rightarrow> indexDts = []))))"

text \<open>
  \<open>cleared\<close>: if the file belongs to a types package and the host has a listing function,
  the check is over and has not found the package redundant. \<open>promise_ok\<close>: what holds of an
  entry according to where its \<^verbatim>\<open>fetchFile\<close> stands. \<open>shim_ok\<close> is the invariant.
\<close>

definition cleared :: "env \<Rightarrow> host \<Rightarrow> string \<Rightarrow> bool" where
  "cleared e h fileName =
     (case pkgNameOf fileName of
        None \<Rightarrow> True
      | Some p \<Rightarrow> flat e \<and> startsWith p ''@types/'' \<longrightarrow> passed e h (originalPkgNameOf p))"

definition promise_ok :: "env \<Rightarrow> host \<Rightarrow> string \<Rightarrow> promise \<Rightarrow> bool" where
  "promise_ok e h fileName t =
     (case t of
        AwaitManifest p orig \<Rightarrow>
          pkgNameOf fileName = Some p \<and> orig = originalPkgNameOf p
      | AwaitIndexDts p orig \<Rightarrow>
          pkgNameOf fileName = Some p \<and> orig = originalPkgNameOf p \<and>
          plainManifest e h orig \<and> indexDtsOf orig \<in> fst ` set (files h)
      | Fulfilled None \<Rightarrow> True
      | _ \<Rightarrow> cleared e h fileName)"

definition manifests_ok :: "(string \<times> promise) list \<Rightarrow> bool" where
  "manifests_ok fs =
     (\<forall>(k, t) \<in> set fs. \<forall>p orig. t = AwaitManifest p orig \<longrightarrow>
        packageJsonOf orig \<in> fst ` set fs)"

definition shim_ok :: "env \<Rightarrow> host \<Rightarrow> bool" where
  "shim_ok e h =
     (fetch_ok h \<and> manifests_ok (files h) \<and>
      (\<forall>(k, t) \<in> set (files h). promise_ok e h k t) \<and>
      (\<forall>(k, u) \<in> set (fetched h). cleared e h k))"

lemma passed_not_redundant: "passed e h orig \<Longrightarrow> \<not> redundant e h orig"
  by (auto simp: passed_def redundant_def declaresTypes_def shipsIndexDts_def plainManifest_def
           split: awaited.splits option.splits json.splits)

text \<open>How a later state relates to an earlier one.\<close>

definition later :: "host \<Rightarrow> host \<Rightarrow> bool" where
  "later h h' = (evolves (files h) (files h') \<and> distinct (map fst (files h')))"

lemma later_keys:
  assumes "later h h'" "k \<in> fst ` set (files h)"
  shows "k \<in> fst ` set (files h')"
proof -
  from assms(2) obtain i where i: "i < length (files h)" "fst (files h ! i) = k"
    by (auto simp: in_set_conv_nth)
  with assms(1) have "i < length (files h')" "fst (files h' ! i) = k"
    by (auto simp: later_def evolves_def)
  then show ?thesis by (metis nth_mem image_eqI)
qed

lemma later_await:
  assumes "later h h'" "k \<in> fst ` set (files h)" "awaitFile h k \<noteq> StillPending"
  shows "awaitFile h' k = awaitFile h k"
proof -
  from assms(2) obtain t where t: "map_of (files h) k = Some t"
    by (cases "map_of (files h) k") (auto simp: map_of_eq_None_iff)
  with assms(3) have "settled t"
    by (cases t) (auto simp: awaitFile_def settled_def)
  from settled_stays[OF _ _ t this] assms(1) have "map_of (files h') k = Some t"
    by (simp add: later_def)
  with t show ?thesis by (simp add: awaitFile_def)
qed

lemma present: "map_of fs k = Some t \<Longrightarrow> k \<in> fst ` set fs"
  by (metis map_of_SomeD fst_conv image_eqI)

lemma await_some_present:
  "awaitFile h k = Gave (Some v) \<Longrightarrow> k \<in> fst ` set (files h)"
  by (cases "map_of (files h) k") (auto simp: awaitFile_def dest: present)

lemma plain_present:
  "plainManifest e h orig \<Longrightarrow> packageJsonOf orig \<in> fst ` set (files h)"
  by (auto simp: plainManifest_def dest: await_some_present
           split: awaited.splits option.splits)

lemma plain_settled:
  "plainManifest e h orig \<Longrightarrow> awaitFile h (packageJsonOf orig) \<noteq> StillPending"
  by (auto simp: plainManifest_def split: awaited.splits)

lemma later_plain:
  assumes "later h h'" "plainManifest e h orig"
  shows "plainManifest e h' orig"
  using later_await[OF assms(1) plain_present[OF assms(2)] plain_settled[OF assms(2)]] assms(2)
  by (simp add: plainManifest_def)

lemma later_passed:
  assumes "later h h'" "passed e h orig"
  shows "passed e h' orig"
proof -
  from assms(2) have m: "packageJsonOf orig \<in> fst ` set (files h)"
    and ms: "awaitFile h (packageJsonOf orig) \<noteq> StillPending"
    by (auto simp: passed_def split: awaited.splits)
  note am = later_await[OF assms(1) m ms]
  note km = later_keys[OF assms(1) m]
  show ?thesis
  proof (cases "plainManifest e h orig")
    case False
    with assms(2) am km show ?thesis
      by (auto simp: passed_def plainManifest_def split: awaited.splits option.splits json.splits)
  next
    case True
    with assms(2) have x: "indexDtsOf orig \<in> fst ` set (files h)"
      and xs: "awaitFile h (indexDtsOf orig) \<noteq> StillPending"
      by (auto simp: passed_def plainManifest_def split: awaited.splits option.splits json.splits)
    note ax = later_await[OF assms(1) x xs]
    note kx = later_keys[OF assms(1) x]
    from later_plain[OF assms(1) True] assms(2) am km ax kx show ?thesis
      by (auto simp: passed_def split: awaited.splits option.splits json.splits)
  qed
qed

lemma later_cleared: "later h h' \<Longrightarrow> cleared e h k \<Longrightarrow> cleared e h' k"
  by (auto simp: cleared_def later_passed split: option.splits)

lemma later_promise: "later h h' \<Longrightarrow> promise_ok e h k t \<Longrightarrow> promise_ok e h' k t"
  by (cases t) (auto simp: promise_ok_def later_cleared later_plain later_keys split: option.splits)

lemma served_packageJson: "served (packageJsonOf orig)"
  by (simp add: served_def packageJsonOf_def startsWith_def endsWith_def suffix_def)

lemma served_indexDts: "served (indexDtsOf orig)"
proof -
  have "indexDtsOf orig = (''/node_modules/'' @ orig @ ''/index'') @ ''.d.ts''"
    by (simp add: indexDtsOf_def)
  then have "endsWith (indexDtsOf orig) ''.d.ts''"
    unfolding endsWith_def suffix_def by blast
  then show ?thesis by (simp add: served_def indexDtsOf_def startsWith_def)
qed

lemma firstPromise_ok: "promise_ok e h k (firstPromise e k)"
  unfolding firstPromise_def
  by (auto simp: fetchFile.simps[of e emptyHost k] promise_ok_def cleared_def
                 fetchFile_flat_def fetchFile_request_def Let_def
           split: option.splits)

lemma set_assign_subset: "set (assign k v kvs) \<subseteq> insert (k, v) (set kvs)"
  by (induction kvs) (auto split: if_splits)

lemma keys_assign_eq: "fst ` set (assign k v kvs) = insert k (fst ` set kvs)"
proof -
  have "dom (map_of (assign k v kvs)) = insert k (dom (map_of kvs))"
    by (simp add: map_of_assign)
  then show ?thesis by (simp add: dom_map_of_conv_image_fst)
qed

lemma keys_assign: "fst ` set kvs \<subseteq> fst ` set (assign k v kvs)"
  by (auto simp: keys_assign_eq)

lemma manifests_assign:
  assumes "manifests_ok fs"
    and "\<And>p orig. t = AwaitManifest p orig \<Longrightarrow> packageJsonOf orig \<in> fst ` set fs"
  shows "manifests_ok (assign f t fs)"
  unfolding manifests_ok_def
proof (intro ballI, clarify)
  fix k p orig
  assume "(k, AwaitManifest p orig) \<in> set (assign f t fs)"
  with set_assign_subset[of f t fs]
  have "(k, AwaitManifest p orig) = (f, t) \<or> (k, AwaitManifest p orig) \<in> set fs" by auto
  then have "packageJsonOf orig \<in> fst ` set fs"
  proof
    assume "(k, AwaitManifest p orig) = (f, t)"
    then show ?thesis using assms(2)[of p orig] by simp
  next
    assume "(k, AwaitManifest p orig) \<in> set fs"
    with assms(1) show ?thesis by (auto simp: manifests_ok_def)
  qed
  with keys_assign[of fs f t] show "packageJsonOf orig \<in> fst ` set (assign f t fs)" by blast
qed

lemma readFile_manifests:
  shows "manifests_ok (files h) \<Longrightarrow> manifests_ok (files (fst (readFile e h f)))"
    and "manifests_ok (files h) \<Longrightarrow>
         manifests_ok (files (fst (fetchFile e h f))) \<and>
         (\<forall>p orig. snd (fetchFile e h f) = AwaitManifest p orig \<longrightarrow>
            packageJsonOf orig \<in> fst ` set (files (fst (fetchFile e h f))))"
proof (induction e h f and e h f rule: readFile_fetchFile.induct)
  case (1 e h fileName)
  show ?case
  proof (cases "served fileName \<and> map_of (files h) fileName = None")
    case True
    obtain h' t where ft: "fetchFile e h fileName = (h', t)" by (cases "fetchFile e h fileName")
    from "1.IH" True "1.prems" ft have m: "manifests_ok (files h')"
      and p: "\<And>p orig. t = AwaitManifest p orig \<Longrightarrow> packageJsonOf orig \<in> fst ` set (files h')"
      by auto
    from manifests_assign[OF m p] True ft show ?thesis
      by (simp add: readFile.simps[of e h fileName])
  next
    case False
    with "1.prems" show ?thesis by (auto simp: readFile.simps[of e h fileName])
  qed
next
  case (2 e h fileName)
  show ?case
  proof (cases "flat e")
    case False
    with "2.prems" show ?thesis
      by (simp add: fetchFile.simps[of e h fileName] fetchFile_request_def Let_def)
  next
    case flat: True
    show ?thesis
    proof (cases "pkgNameOf fileName")
      case None
      with flat "2.prems" show ?thesis by (simp add: fetchFile.simps[of e h fileName])
    next
      case (Some p)
      show ?thesis
      proof (cases "\<not> (endsWith p ''.d.ts'' \<or> endsWith p ''/node_modules'')
           \<and> \<not> (startsWith p ''@typescript/'' \<or> startsWith p ''@types/typescript__'')
           \<and> startsWith p ''@types/''")
        case True
        with "2.IH"[OF flat Some] "2.prems"
        have "manifests_ok (files (fst (readFile e h (packageJsonOf (originalPkgNameOf p)))))"
          by simp
        moreover from readFile_present[OF served_packageJson]
        have "packageJsonOf (originalPkgNameOf p)
                \<in> fst ` set (files (fst (readFile e h (packageJsonOf (originalPkgNameOf p)))))" .
        ultimately show ?thesis using True Some flat
          by (simp add: fetchFile.simps[of e h fileName])
      next
        case False
        with Some flat "2.prems" show ?thesis
          by (auto simp: fetchFile.simps[of e h fileName] fetchFile_flat_def)
      qed
    qed
  qed
qed

lemma readFile_new_promises:
  "\<exists>new. files (fst (readFile e h f)) = files h @ new \<and> (\<forall>(k, t) \<in> set new. t = firstPromise e k)"
proof (cases "flat e")
  case True
  from readFile_registers(1)[OF True, of h f] show ?thesis
    unfolding registers_def by fastforce
next
  case False
  have "firstPromise e f = AwaitFetch (requestUrl (cdn e) (versions e) f)"
    using False
    by (simp add: firstPromise_def fetchFile.simps[of e emptyHost f] fetchFile_request_def Let_def)
  then show ?thesis
    unfolding readFile_noflat[OF False]
    by (cases "served f \<and> map_of (files h) f = None") auto
qed

lemma readFile_sent:
  "flat e \<Longrightarrow> fetched (fst (readFile e h f)) = fetched h"
  using readFile_registers(1)[of e h f] unfolding registers_def by blast

lemma cleared_noflat: "\<not> flat e \<Longrightarrow> cleared e h k"
  by (simp add: cleared_def split: option.splits)

lemma later_step:
  assumes "fetch_ok h" "hostStep e h ev = Some h'"
  shows "later h h'"
  using step_evolves[OF assms(2)] fetch_ok_step[OF assms]
  by (simp add: later_def fetch_ok_def)

lemma resume_shape:
  assumes "resume e h f t = Some (h1, t')"
  shows "(\<forall>p orig. t' \<noteq> AwaitManifest p orig) \<and>
         (files h1 = files h \<or> (\<exists>orig. h1 = fst (readFile e h (indexDtsOf orig)))) \<and>
         (flat e \<longrightarrow> fetched h1 = fetched h \<or>
                      (\<exists>u. fetched h1 = fetched h @ [(f, u)] \<and> t' = AwaitFetch u))"
proof (cases t)
  case (AwaitManifest p orig)
  have "flat e \<longrightarrow> fetched (fst (readFile e h (indexDtsOf orig))) = fetched h"
    by (simp add: readFile_sent)
  with assms AwaitManifest show ?thesis
    by (auto simp: fetchFile_flat_def
             split: awaited.splits option.splits if_splits json.splits)
next
  case (AwaitIndexDts p orig)
  with assms show ?thesis
    by (auto simp: fetchFile_flat_def split: awaited.splits option.splits if_splits)
next
  case (AwaitFlat p)
  with assms show ?thesis
    by (auto simp: fetchFile_listing_def fetchFile_request_def Let_def
             split: option.splits listing.splits if_splits)
qed (use assms in auto)

lemma passed_by_manifest:
  assumes "packageJsonOf orig \<in> fst ` set (files h)"
    and "(\<exists>x. awaitFile h (packageJsonOf orig) = Threw x) \<or>
         awaitFile h (packageJsonOf orig) = Gave None \<or>
         (\<exists>text. awaitFile h (packageJsonOf orig) = Gave (Some text) \<and>
            (text = [] \<or> JSON_parse e text = None \<or> JSON_parse e text = Some JNull))"
  shows "passed e h orig"
  using assms by (auto simp: passed_def)

lemma passed_by_index:
  assumes "plainManifest e h orig" "indexDtsOf orig \<in> fst ` set (files h)"
    and "(\<exists>x. awaitFile h (indexDtsOf orig) = Threw x) \<or>
         awaitFile h (indexDtsOf orig) = Gave None \<or>
         awaitFile h (indexDtsOf orig) = Gave (Some [])"
  shows "passed e h orig"
  using assms plain_present[OF assms(1)]
  by (auto simp: passed_def plainManifest_def split: awaited.splits option.splits json.splits)

lemma resume_verdict:
  assumes "promise_ok e h f t" "manifests_ok (files h)" "map_of (files h) f = Some t"
    and "resume e h f t = Some (h1, t')"
  shows "t' = Fulfilled None \<or>
         (\<exists>p. t' = AwaitIndexDts p (originalPkgNameOf p) \<and> pkgNameOf f = Some p \<and>
              plainManifest e h (originalPkgNameOf p) \<and>
              h1 = fst (readFile e h (indexDtsOf (originalPkgNameOf p)))) \<or>
         ((\<forall>p orig. t' \<noteq> AwaitIndexDts p orig) \<and> (\<forall>p orig. t' \<noteq> AwaitManifest p orig) \<and>
          cleared e h f)"
proof (cases t)
  case (AwaitManifest p orig)
  with assms(1) have names: "pkgNameOf f = Some p" "orig = originalPkgNameOf p"
    by (simp_all add: promise_ok_def)
  from assms(3) AwaitManifest have "(f, AwaitManifest p orig) \<in> set (files h)"
    by (auto dest: map_of_SomeD)
  with assms(2) have m: "packageJsonOf orig \<in> fst ` set (files h)"
    by (auto simp: manifests_ok_def)
  show ?thesis
  proof (cases "declaresTypes e h orig \<or> plainManifest e h orig")
    case True
    with assms(4) AwaitManifest names show ?thesis
      by (auto simp: declaresTypes_def plainManifest_def
               split: awaited.splits option.splits json.splits if_splits)
  next
    case False
    with assms(4) AwaitManifest
    have c: "(\<exists>x. awaitFile h (packageJsonOf orig) = Threw x) \<or>
         awaitFile h (packageJsonOf orig) = Gave None \<or>
         (\<exists>text. awaitFile h (packageJsonOf orig) = Gave (Some text) \<and>
            (text = [] \<or> JSON_parse e text = None \<or> JSON_parse e text = Some JNull))"
      by (auto simp: declaresTypes_def plainManifest_def
               split: awaited.splits option.splits json.splits if_splits)
    from passed_by_manifest[OF m c] names have "cleared e h f" by (simp add: cleared_def)
    moreover from False assms(4) AwaitManifest
    have "(\<forall>p orig. t' \<noteq> AwaitIndexDts p orig) \<and> (\<forall>p orig. t' \<noteq> AwaitManifest p orig)"
      by (auto simp: declaresTypes_def plainManifest_def fetchFile_flat_def
               split: awaited.splits option.splits json.splits if_splits)
    ultimately show ?thesis by blast
  qed
next
  case (AwaitIndexDts p orig)
  with assms(1) have names: "pkgNameOf f = Some p" "orig = originalPkgNameOf p"
    and pl: "plainManifest e h orig" and x: "indexDtsOf orig \<in> fst ` set (files h)"
    by (auto simp: promise_ok_def)
  show ?thesis
  proof (cases "t' = Fulfilled None")
    case True
    then show ?thesis by simp
  next
    case False
    with assms(4) AwaitIndexDts
    have c: "(\<exists>x. awaitFile h (indexDtsOf orig) = Threw x) \<or>
         awaitFile h (indexDtsOf orig) = Gave None \<or>
         awaitFile h (indexDtsOf orig) = Gave (Some [])"
      by (auto split: awaited.splits option.splits if_splits)
    from passed_by_index[OF pl x c] names have "cleared e h f" by (simp add: cleared_def)
    moreover from assms(4) AwaitIndexDts
    have "(\<forall>p orig. t' \<noteq> AwaitIndexDts p orig) \<and> (\<forall>p orig. t' \<noteq> AwaitManifest p orig)"
      by (auto simp: fetchFile_flat_def split: awaited.splits option.splits if_splits)
    ultimately show ?thesis by blast
  qed
next
  case (AwaitFlat p)
  with assms(1) have "cleared e h f" by (simp add: promise_ok_def)
  moreover from assms(4) AwaitFlat
  have "(\<forall>p orig. t' \<noteq> AwaitIndexDts p orig) \<and> (\<forall>p orig. t' \<noteq> AwaitManifest p orig)"
    by (auto simp: fetchFile_listing_def fetchFile_request_def Let_def
             split: option.splits listing.splits if_splits)
  ultimately show ?thesis by blast
qed (use assms(4) in auto)

lemma shim_ok_same_files:
  assumes "shim_ok e h" "later h h'" "fetch_ok h'" "files h' = files h" "fetched h' = fetched h"
  shows "shim_ok e h'"
  using assms later_promise[OF assms(2)] later_cleared[OF assms(2)]
  unfolding shim_ok_def by fastforce

lemma shim_ok_ReadFile:
  assumes "shim_ok e h" "later h h'" "fetch_ok h'" "h' = fst (readFile e h f)"
  shows "shim_ok e h'"
proof -
  from assms(1) have M: "manifests_ok (files h)"
    and T: "\<And>k t. (k, t) \<in> set (files h) \<Longrightarrow> promise_ok e h k t"
    and G: "\<And>k u. (k, u) \<in> set (fetched h) \<Longrightarrow> cleared e h k"
    by (auto simp: shim_ok_def)
  from readFile_new_promises[of e h f] assms(4) obtain new where
    new: "files h' = files h @ new" "\<And>k t. (k, t) \<in> set new \<Longrightarrow> t = firstPromise e k"
    by auto
  have m: "manifests_ok (files h')" using readFile_manifests(1)[OF M] assms(4) by simp
  have t: "promise_ok e h' k t" if "(k, t) \<in> set (files h')" for k t
  proof -
    from that new(1) have "(k, t) \<in> set (files h) \<or> (k, t) \<in> set new" by auto
    then show ?thesis
    proof
      assume "(k, t) \<in> set (files h)"
      from later_promise[OF assms(2) T[OF this]] show ?thesis .
    next
      assume "(k, t) \<in> set new"
      from new(2)[OF this] firstPromise_ok[of e h' k] show ?thesis by simp
    qed
  qed
  have g: "cleared e h' k" if "(k, u) \<in> set (fetched h')" for k u
  proof (cases "flat e")
    case True
    with that assms(4) have "(k, u) \<in> set (fetched h)" by (simp add: readFile_sent)
    from later_cleared[OF assms(2) G[OF this]] show ?thesis .
  next
    case False
    then show ?thesis by (rule cleared_noflat)
  qed
  from m t g assms(3) show ?thesis unfolding shim_ok_def by blast
qed

lemma shim_ok_FetchSettles:
  assumes "shim_ok e h" "later h h'" "fetch_ok h'"
    and "map_of (files h) f = Some (AwaitFetch u)"
    and "h' = h\<lparr> files := assign f (Fulfilled r) (files h) \<rparr>"
  shows "shim_ok e h'"
proof -
  from assms(1) have M: "manifests_ok (files h)"
    and T: "\<And>k t. (k, t) \<in> set (files h) \<Longrightarrow> promise_ok e h k t"
    and G: "\<And>k u. (k, u) \<in> set (fetched h) \<Longrightarrow> cleared e h k"
    by (auto simp: shim_ok_def)
  have m: "manifests_ok (files h')" using manifests_assign[OF M, of "Fulfilled r" f] assms(5) by simp
  from assms(4) have "(f, AwaitFetch u) \<in> set (files h)" by (rule map_of_SomeD)
  from T[OF this] have "cleared e h f" by (simp add: promise_ok_def)
  from later_cleared[OF assms(2) this] have gf: "cleared e h' f" .
  have t: "promise_ok e h' k t" if "(k, t) \<in> set (files h')" for k t
  proof -
    from that assms(5) set_assign_subset[of f "Fulfilled r" "files h"]
    have "(k, t) = (f, Fulfilled r) \<or> (k, t) \<in> set (files h)" by auto
    then show ?thesis
    proof
      assume "(k, t) = (f, Fulfilled r)"
      with gf show ?thesis by (cases r) (simp_all add: promise_ok_def)
    next
      assume "(k, t) \<in> set (files h)"
      from later_promise[OF assms(2) T[OF this]] show ?thesis .
    qed
  qed
  have g: "cleared e h' k" if "(k, u) \<in> set (fetched h')" for k u
  proof -
    from that assms(5) have "(k, u) \<in> set (fetched h)" by simp
    from later_cleared[OF assms(2) G[OF this]] show ?thesis .
  qed
  from m t g assms(3) show ?thesis unfolding shim_ok_def by blast
qed

lemma shim_ok_Resume:
  assumes "shim_ok e h" "later h h'" "fetch_ok h'"
    and "map_of (files h) f = Some t0" "resume e h f t0 = Some (h1, t')"
    and "h' = h1\<lparr> files := assign f t' (files h1) \<rparr>"
  shows "shim_ok e h'"
proof -
  from assms(1) have M: "manifests_ok (files h)"
    and T: "\<And>k t. (k, t) \<in> set (files h) \<Longrightarrow> promise_ok e h k t"
    and G: "\<And>k u. (k, u) \<in> set (fetched h) \<Longrightarrow> cleared e h k"
    by (auto simp: shim_ok_def)
  from assms(4) have entry: "(f, t0) \<in> set (files h)" by (rule map_of_SomeD)
  from resume_shape[OF assms(5)] have
    nm: "\<And>p orig. t' \<noteq> AwaitManifest p orig"
    and fs: "files h1 = files h \<or> (\<exists>orig. h1 = fst (readFile e h (indexDtsOf orig)))"
    and sent: "flat e \<Longrightarrow> fetched h1 = fetched h \<or>
                 (\<exists>u. fetched h1 = fetched h @ [(f, u)] \<and> t' = AwaitFetch u)"
    by blast+
  from fs have m1: "manifests_ok (files h1)" using M readFile_manifests(1)[OF M] by auto
  from fs obtain new where
    new: "files h1 = files h @ new" "\<And>k t. (k, t) \<in> set new \<Longrightarrow> t = firstPromise e k"
  proof
    assume "files h1 = files h"
    then have "files h1 = files h @ []" by simp
    then show ?thesis using that[of "[]"] by simp
  next
    assume "\<exists>orig. h1 = fst (readFile e h (indexDtsOf orig))"
    then obtain orig where "h1 = fst (readFile e h (indexDtsOf orig))" ..
    with readFile_new_promises[of e h "indexDtsOf orig"] show ?thesis using that by auto
  qed
  have m: "manifests_ok (files h')" using manifests_assign[OF m1, of t' f] nm assms(6) by simp
  have tf: "promise_ok e h' f t'"
  proof -
    from resume_verdict[OF T[OF entry] M assms(4) assms(5)]
    consider "t' = Fulfilled None"
      | p where "t' = AwaitIndexDts p (originalPkgNameOf p)" "pkgNameOf f = Some p"
          "plainManifest e h (originalPkgNameOf p)"
          "h1 = fst (readFile e h (indexDtsOf (originalPkgNameOf p)))"
      | "\<And>p orig. t' \<noteq> AwaitIndexDts p orig" "\<And>p orig. t' \<noteq> AwaitManifest p orig" "cleared e h f"
      by blast
    then show ?thesis
    proof cases
      case 1
      then show ?thesis by (simp add: promise_ok_def)
    next
      case 2
      from readFile_present[OF served_indexDts, of "originalPkgNameOf p" e h] 2(4)
      have "indexDtsOf (originalPkgNameOf p) \<in> fst ` set (files h1)" by simp
      with keys_assign[of "files h1" f t'] assms(6)
      have "indexDtsOf (originalPkgNameOf p) \<in> fst ` set (files h')" by auto
      with 2(1,2) later_plain[OF assms(2) 2(3)] show ?thesis by (simp add: promise_ok_def)
    next
      case 3
      from later_cleared[OF assms(2) 3(3)] 3(1,2) show ?thesis
        by (cases t') (auto simp: promise_ok_def split: option.splits)
    qed
  qed
  have t: "promise_ok e h' k t" if "(k, t) \<in> set (files h')" for k t
  proof -
    from that assms(6) set_assign_subset[of f t' "files h1"] new(1)
    have "(k, t) = (f, t') \<or> (k, t) \<in> set (files h) \<or> (k, t) \<in> set new" by auto
    then consider "(k, t) = (f, t')" | "(k, t) \<in> set (files h)" | "(k, t) \<in> set new" by blast
    then show ?thesis
    proof cases
      case 1
      with tf show ?thesis by simp
    next
      case 2
      from later_promise[OF assms(2) T[OF 2]] show ?thesis .
    next
      case 3
      from new(2)[OF 3] firstPromise_ok[of e h' k] show ?thesis by simp
    qed
  qed
  have g: "cleared e h' k" if "(k, u) \<in> set (fetched h')" for k u
  proof (cases "flat e")
    case True
    from that assms(6) have in1: "(k, u) \<in> set (fetched h1)" by simp
    from sent[OF True] show ?thesis
    proof
      assume "fetched h1 = fetched h"
      with in1 have "(k, u) \<in> set (fetched h)" by simp
      from later_cleared[OF assms(2) G[OF this]] show ?thesis .
    next
      assume "\<exists>u. fetched h1 = fetched h @ [(f, u)] \<and> t' = AwaitFetch u"
      then obtain u' where u': "fetched h1 = fetched h @ [(f, u')]" "t' = AwaitFetch u'" by blast
      with in1 have "(k, u) \<in> set (fetched h) \<or> k = f" by auto
      then show ?thesis
      proof
        assume "(k, u) \<in> set (fetched h)"
        from later_cleared[OF assms(2) G[OF this]] show ?thesis .
      next
        assume "k = f"
        with tf u'(2) show ?thesis by (simp add: promise_ok_def)
      qed
    qed
  next
    case False
    then show ?thesis by (rule cleared_noflat)
  qed
  from m t g assms(3) show ?thesis unfolding shim_ok_def by blast
qed

lemma shim_ok_step:
  assumes "shim_ok e h" "hostStep e h ev = Some h'"
  shows "shim_ok e h'"
proof -
  from assms(1) have F: "fetch_ok h" by (simp add: shim_ok_def)
  note L = later_step[OF F assms(2)]
  note F' = fetch_ok_step[OF F assms(2)]
  show ?thesis
  proof (cases ev)
    case (ReadFile f)
    with assms(2) have "h' = fst (readFile e h f)" by simp
    from shim_ok_ReadFile[OF assms(1) L F' this] show ?thesis .
  next
    case (Resume f)
    from step_Resume[OF assms(2)[unfolded Resume]] obtain t h1 t' where
      "map_of (files h) f = Some t" "resume e h f t = Some (h1, t')"
      "h' = h1\<lparr> files := assign f t' (files h1) \<rparr>"
      by blast
    from shim_ok_Resume[OF assms(1) L F' this] show ?thesis .
  next
    case (FetchSettles f r)
    from step_FetchSettles[OF assms(2)[unfolded FetchSettles]] obtain u where
      "map_of (files h) f = Some (AwaitFetch u)"
      "h' = h\<lparr> files := assign f (Fulfilled r) (files h) \<rparr>"
      by blast
    from shim_ok_FetchSettles[OF assms(1) L F' this] show ?thesis .
  next
    case (FlatSettles p l)
    from step_FlatSettles[OF assms(2)[unfolded FlatSettles]]
    have "files h' = files h" "fetched h' = fetched h" by simp_all
    from shim_ok_same_files[OF assms(1) L F' this] show ?thesis .
  next
    case GetVersion
    from step_GetVersion[OF assms(2)[unfolded GetVersion]]
    have "files h' = files h" "fetched h' = fetched h" by simp_all
    from shim_ok_same_files[OF assms(1) L F' this] show ?thesis .
  next
    case (VersionResume k)
    from step_VersionResume[OF assms(2)[unfolded VersionResume]]
    have "files h' = files h \<and> fetched h' = fetched h" by auto
    then have "files h' = files h" "fetched h' = fetched h" by simp_all
    from shim_ok_same_files[OF assms(1) L F' this] show ?thesis .
  qed
qed

lemma shim_ok_run: "shim_ok e h \<Longrightarrow> hostRun e h evs = Some h' \<Longrightarrow> shim_ok e h'"
proof (induction evs arbitrary: h)
  case Nil
  then show ?case by simp
next
  case (Cons ev evs)
  then show ?case by (auto split: option.splits dest: shim_ok_step)
qed

lemma shim_ok_empty: "shim_ok e emptyHost"
  by (simp add: shim_ok_def fetch_ok_empty manifests_ok_def) (simp add: emptyHost_def)

lemma shim_not_requested:
  assumes "shim_ok e h" "flat e" "pkgNameOf f = Some p" "startsWith p ''@types/''"
    and "redundant e h (originalPkgNameOf p)"
  shows "f \<notin> fst ` set (fetched h)"
    and "map_of (files h) f = Some t \<Longrightarrow>
         t = Fulfilled None \<or> t = AwaitManifest p (originalPkgNameOf p) \<or>
         (t = AwaitIndexDts p (originalPkgNameOf p) \<and> plainManifest e h (originalPkgNameOf p))"
proof -
  from assms(2-5) passed_not_redundant[of e h "originalPkgNameOf p"]
  have ng: "\<not> cleared e h f" by (auto simp: cleared_def)
  with assms(1) show "f \<notin> fst ` set (fetched h)" by (auto simp: shim_ok_def)
  assume "map_of (files h) f = Some t"
  then have "(f, t) \<in> set (files h)" by (rule map_of_SomeD)
  with assms(1) have "promise_ok e h f t" by (auto simp: shim_ok_def)
  with ng assms(3) show "t = Fulfilled None \<or> t = AwaitManifest p (originalPkgNameOf p) \<or>
         (t = AwaitIndexDts p (originalPkgNameOf p) \<and> plainManifest e h (originalPkgNameOf p))"
    by (cases t) (auto simp: promise_ok_def split: option.splits)
qed

lemma awaitFile_assign:
  "k \<noteq> f \<Longrightarrow> awaitFile (h\<lparr> files := assign f t (files h) \<rparr>) k = awaitFile h k"
  by (simp add: awaitFile_def map_of_assign)

lemma resume_declared:
  assumes "declaresTypes e h orig"
  shows "resume e h f (AwaitManifest p orig) = Some (h, Fulfilled None)"
  using assms
  by (auto simp: declaresTypes_def split: awaited.splits option.splits json.splits)

lemma resume_shipped:
  assumes "shipsIndexDts e h orig"
  shows "resume e h f (AwaitIndexDts p orig) = Some (h, Fulfilled None)"
  using assms
  by (auto simp: shipsIndexDts_def split: awaited.splits option.splits)

lemma shipped_present:
  assumes "shipsIndexDts e h orig"
  shows "\<exists>d. map_of (files h) (indexDtsOf orig) = Some (Fulfilled (Some d))"
  using assms
  by (auto simp: shipsIndexDts_def awaitFile_def split: awaited.splits option.splits promise.splits)

lemma plain_fulfilled:
  assumes "plainManifest e h orig"
  shows "\<exists>d. map_of (files h) (packageJsonOf orig) = Some (Fulfilled (Some d))"
  using assms
  by (auto simp: plainManifest_def awaitFile_def split: awaited.splits option.splits promise.splits)

lemma resume_plain:
  assumes "shipsIndexDts e h orig"
  shows "resume e h f (AwaitManifest p orig) = Some (h, AwaitIndexDts p orig)"
proof -
  from shipped_present[OF assms] obtain d where
    "map_of (files h) (indexDtsOf orig) = Some (Fulfilled (Some d))" ..
  then have "readFile e h (indexDtsOf orig) = (h, True)"
    by (simp add: readFile.simps[of e h "indexDtsOf orig"] served_indexDts)
  with assms show ?thesis
    by (auto simp: shipsIndexDts_def plainManifest_def
             split: awaited.splits option.splits json.splits)
qed

lemma shipped_assign:
  assumes "shipsIndexDts e h orig" "map_of (files h) f = Some (AwaitManifest p orig')"
  shows "shipsIndexDts e (h\<lparr> files := assign f t (files h) \<rparr>) orig"
proof -
  from shipped_present[OF assms(1)] assms(2) have 1: "indexDtsOf orig \<noteq> f" by auto
  from assms(1) have "plainManifest e h orig" by (simp add: shipsIndexDts_def)
  from plain_fulfilled[OF this] assms(2) have 2: "packageJsonOf orig \<noteq> f" by auto
  from assms(1) show ?thesis
    by (simp add: shipsIndexDts_def plainManifest_def awaitFile_assign[OF 1] awaitFile_assign[OF 2])
qed

lemma step_Resume_to:
  assumes "map_of (files h) f = Some t" "resume e h f t = Some (h, t')"
  shows "hostStep e h (Resume f) = Some (h\<lparr> files := assign f t' (files h) \<rparr>)"
  using assms by simp

lemma shim_settles_absent:
  assumes "map_of (files h) f = Some t"
    and "t = Fulfilled None \<or> t = AwaitManifest p orig \<or>
         (t = AwaitIndexDts p orig \<and> plainManifest e h orig)"
    and "redundant e h orig"
  shows "\<exists>n\<le>2. \<exists>h'. hostRun e h (replicate n (Resume f)) = Some h' \<and>
            map_of (files h') f = Some (Fulfilled None) \<and> fetched h' = fetched h"
proof -
  let ?done = "\<lambda>h'. map_of (files h') f = Some (Fulfilled None) \<and> fetched h' = fetched h"
  let ?h1 = "\<lambda>t'. h\<lparr> files := assign f t' (files h) \<rparr>"
  have fin: "?done (?h1 (Fulfilled None))" by (simp add: map_of_assign)
  from assms(2) consider "t = Fulfilled None"
    | "t = AwaitManifest p orig" "declaresTypes e h orig"
    | "t = AwaitManifest p orig" "shipsIndexDts e h orig"
    | "t = AwaitIndexDts p orig" "shipsIndexDts e h orig"
    using assms(3)
    by (auto simp: redundant_def declaresTypes_def plainManifest_def
             split: awaited.splits option.splits json.splits)
  then show ?thesis
  proof cases
    case 1
    with assms(1) have "hostRun e h (replicate 0 (Resume f)) = Some h \<and> ?done h" by simp
    then show ?thesis by blast
  next
    case 2
    from step_Resume_to[OF assms(1)[unfolded 2(1)] resume_declared[OF 2(2)]]
    have "hostRun e h (replicate 1 (Resume f)) = Some (?h1 (Fulfilled None))" by simp
    with fin show ?thesis by (intro exI[of _ 1] exI[of _ "?h1 (Fulfilled None)"]) simp
  next
    case 3
    let ?m = "?h1 (AwaitIndexDts p orig)"
    from step_Resume_to[OF assms(1)[unfolded 3(1)] resume_plain[OF 3(2)]]
    have s1: "hostStep e h (Resume f) = Some ?m" .
    have "map_of (files ?m) f = Some (AwaitIndexDts p orig)" by (simp add: map_of_assign)
    from step_Resume_to[OF this resume_shipped[OF shipped_assign[OF 3(2) assms(1)[unfolded 3(1)]]]]
    have s2: "hostStep e ?m (Resume f) = Some (?m\<lparr> files := assign f (Fulfilled None) (files ?m) \<rparr>)" .
    have "replicate 2 (Resume f) = [Resume f, Resume f]" by (simp add: numeral_2_eq_2)
    with s1 s2 have "hostRun e h (replicate 2 (Resume f)) =
        Some (?m\<lparr> files := assign f (Fulfilled None) (files ?m) \<rparr>)"
      by simp
    moreover have "?done (?m\<lparr> files := assign f (Fulfilled None) (files ?m) \<rparr>)"
      by (simp add: map_of_assign)
    ultimately show ?thesis
      by (intro exI[of _ 2] exI[of _ "?m\<lparr> files := assign f (Fulfilled None) (files ?m) \<rparr>"]) simp
  next
    case 4
    from step_Resume_to[OF assms(1)[unfolded 4(1)] resume_shipped[OF 4(2)]]
    have "hostRun e h (replicate 1 (Resume f)) = Some (?h1 (Fulfilled None))" by simp
    with fin show ?thesis by (intro exI[of _ 1] exI[of _ "?h1 (Fulfilled None)"]) simp
  qed
qed

text \<open>
  \<^verbatim>\<open>JSON.parse\<close> on the texts used below (it throws on any other text used here), the
  host of \<^verbatim>\<open>createJsDelivrDtsHost\<close> (lines 220-248) and a host of \<^verbatim>\<open>createBaseDtsHost\<close>
  (lines 211-218) made without listing function.
\<close>

definition sample_parse :: "string \<Rightarrow> json option" where
  "sample_parse s =
     (if s = ''{\"types\":\"index.d.ts\"}'' then Some (JObject [(''types'', JString ''index.d.ts'')])
      else if s = ''{\"types\":\"\"}'' then Some (JObject [(''types'', JString [])])
      else if s = ''{}'' then Some (JObject [])
      else if s = ''null'' then Some JNull
      else None)"

definition jsdelivr :: env where
  "jsdelivr = \<lparr> cdn = ''https://cdn.jsdelivr.net/npm/'', versions = [], flat = True,
                 JSON_parse = sample_parse \<rparr>"

definition unlisted :: env where
  "unlisted = \<lparr> cdn = ''https://cdn.example/'', versions = [], flat = False,
                 JSON_parse = sample_parse \<rparr>"

definition typed_trace :: "hostEvent list" where
  "typed_trace =
     [ReadFile ''/node_modules/@types/foo/index.d.ts'',
      FlatSettles ''foo'' (Listing [''/package.json'', ''/index.js'']),
      Resume ''/node_modules/foo/package.json'',
      FetchSettles ''/node_modules/foo/package.json'' (Some ''{\"types\":\"index.d.ts\"}'')]"

definition unlisted_trace :: "hostEvent list" where
  "unlisted_trace =
     [ReadFile ''/node_modules/foo/package.json'',
      FetchSettles ''/node_modules/foo/package.json'' (Some ''{\"types\":\"index.d.ts\"}''),
      ReadFile ''/node_modules/@types/foo/index.d.ts'']"

definition missing_manifest_trace :: "hostEvent list" where
  "missing_manifest_trace =
     [ReadFile ''/node_modules/foo/index.d.ts'',
      FlatSettles ''foo'' (Listing [''/package.json'', ''/index.d.ts'']),
      Resume ''/node_modules/foo/index.d.ts'',
      FetchSettles ''/node_modules/foo/index.d.ts'' (Some ''export {}''),
      ReadFile ''/node_modules/@types/foo/index.d.ts'',
      Resume ''/node_modules/foo/package.json'',
      FetchSettles ''/node_modules/foo/package.json'' None,
      Resume ''/node_modules/@types/foo/index.d.ts'',
      FlatSettles ''@types/foo'' (Listing [''/index.d.ts'']),
      Resume ''/node_modules/@types/foo/index.d.ts'']"

definition empty_types_trace :: "hostEvent list" where
  "empty_types_trace =
     [ReadFile ''/node_modules/@types/foo/index.d.ts'',
      FlatSettles ''foo'' (Listing [''/package.json'']),
      Resume ''/node_modules/foo/package.json'',
      FetchSettles ''/node_modules/foo/package.json'' (Some ''{\"types\":\"\"}''),
      Resume ''/node_modules/@types/foo/index.d.ts'',
      Resume ''/node_modules/foo/index.d.ts'',
      Resume ''/node_modules/@types/foo/index.d.ts'',
      FlatSettles ''@types/foo'' (Listing [''/index.d.ts'']),
      Resume ''/node_modules/@types/foo/index.d.ts'']"

definition malformed_trace :: "hostEvent list" where
  "malformed_trace =
     [ReadFile ''/node_modules/@types/foo/index.d.ts'',
      FlatSettles ''foo'' (Listing [''/package.json'', ''/index.js'']),
      GetVersion,
      Resume ''/node_modules/foo/package.json'',
      FetchSettles ''/node_modules/foo/package.json'' (Some ''<html>''),
      Resume ''/node_modules/@types/foo/index.d.ts'',
      VersionResume 0,
      GetVersion,
      VersionResume 1]"

text \<open>
  Once an entry is rejected while \<^verbatim>\<open>lastUpdateFilesSize\<close> has not passed it, no later call
  of \<^verbatim>\<open>getVersion\<close> returns: \<^verbatim>\<open>Promise.all\<close> (line 271) rejects for every call that
  includes the entry, and without it \<^verbatim>\<open>lastUpdateFilesSize\<close> cannot reach \<^verbatim>\<open>files.size\<close>.
\<close>

lemma rejected_blocks_step:
  assumes "hostStep e h ev = Some h'"
    and "i < length (files h)" "snd (files h ! i) = Rejected x" "lastUpdateFilesSize h \<le> i"
  shows "i < length (files h') \<and> snd (files h' ! i) = Rejected x \<and>
         lastUpdateFilesSize h' \<le> i \<and> answers h' = answers h"
proof -
  from step_evolves[OF assms(1)] assms(2,3)
  have i: "i < length (files h')" "snd (files h' ! i) = Rejected x"
    by (auto simp: evolves_def settled_def)
  have l: "lastUpdateFilesSize h' \<le> i"
  proof (cases ev)
    case (ReadFile f)
    with assms(1) have "h' = fst (readFile e h f)" by simp
    with readFile_extends[of h e f] assms(4) show ?thesis unfolding extends_def by auto
  next
    case (Resume f)
    from step_Resume[OF assms(1)[unfolded Resume]] obtain t h1 t' where
      r: "resume e h f t = Some (h1, t')" and h': "h' = h1\<lparr> files := assign f t' (files h1) \<rparr>"
      by blast
    from resume_grown[OF r] h' assms(4) show ?thesis by simp
  next
    case (FetchSettles f r)
    from step_FetchSettles[OF assms(1)[unfolded FetchSettles]] assms(4) show ?thesis by auto
  next
    case (FlatSettles p l)
    from step_FlatSettles[OF assms(1)[unfolded FlatSettles]] assms(4) show ?thesis by simp
  next
    case GetVersion
    from step_GetVersion[OF assms(1)[unfolded GetVersion]] assms(4) show ?thesis by simp
  next
    case (VersionResume k)
    from step_VersionResume[OF assms(1)[unfolded VersionResume]] obtain n where
      c: "(\<exists>x. h' = h\<lparr> drains := (drains h)[k := Failed x] \<rparr>) \<or>
          (promiseAll (map snd (take n (files h))) = Gave () \<and>
           h' = getVersion_suspend k
                  (if lastUpdateFilesSize h < n then h\<lparr> lastUpdateFilesSize := n \<rparr> else h))"
      by blast
    then show ?thesis
    proof
      assume "\<exists>x. h' = h\<lparr> drains := (drains h)[k := Failed x] \<rparr>"
      with assms(4) show ?thesis by auto
    next
      assume g: "promiseAll (map snd (take n (files h))) = Gave () \<and>
           h' = getVersion_suspend k
                  (if lastUpdateFilesSize h < n then h\<lparr> lastUpdateFilesSize := n \<rparr> else h)"
      have "n \<le> i"
      proof (rule ccontr)
        assume "\<not> n \<le> i"
        with assms(2) have "files h ! i \<in> set (take n (files h))"
          by (auto simp: in_set_conv_nth intro!: exI[of _ i])
        then have "snd (files h ! i) \<in> set (map snd (take n (files h)))" by simp
        with promiseAll_Gave g assms(3) show False by fastforce
      qed
      with g assms(4) show ?thesis by simp
    qed
  qed
  from i(1) l have "length (files h') \<noteq> lastUpdateFilesSize h'" by simp
  with answers_step[OF assms(1)] have "answers h' = answers h" by blast
  with i l show ?thesis by simp
qed

lemma rejected_blocks_run:
  assumes "hostRun e h evs = Some h'"
    and "i < length (files h)" "snd (files h ! i) = Rejected x" "lastUpdateFilesSize h \<le> i"
  shows "answers h' = answers h"
  using assms
proof (induction evs arbitrary: h)
  case Nil
  then show ?case by simp
next
  case (Cons ev evs)
  from Cons.prems(1) obtain h1 where
    s: "hostStep e h ev = Some h1" and r: "hostRun e h1 evs = Some h'"
    by (auto split: option.splits)
  from rejected_blocks_step[OF s Cons.prems(2-4)] Cons.IH[OF r] show ?case by simp
qed

lemma hostRun_append:
  "hostRun e h (evs @ evs') =
     (case hostRun e h evs of None \<Rightarrow> None | Some h' \<Rightarrow> hostRun e h' evs')"
  by (induction evs arbitrary: h) (auto split: option.splits)

lemma malformed_run:
  "hostRun jsdelivr emptyHost malformed_trace =
     Some \<lparr> files = [(''/node_modules/foo/package.json'', Fulfilled (Some ''<html>'')),
                     (''/node_modules/@types/foo/index.d.ts'', Rejected SyntaxError)],
            flatResult = [(''foo'', Some (Listing [''/package.json'', ''/index.js'']))],
            lastUpdateFilesSize = 0,
            fetched = [(''/node_modules/foo/package.json'',
                        ''https://cdn.jsdelivr.net/npm/foo/package.json'')],
            drains = [Failed SyntaxError, Failed SyntaxError], answers = [] \<rparr>"
  by code_simp

lemma malformed_manifest_never_answers:
  assumes "hostRun jsdelivr emptyHost (malformed_trace @ evs) = Some h"
  shows "answers h = []"
proof -
  let ?m = "\<lparr> files = [(''/node_modules/foo/package.json'', Fulfilled (Some ''<html>'')),
                     (''/node_modules/@types/foo/index.d.ts'', Rejected SyntaxError)],
            flatResult = [(''foo'', Some (Listing [''/package.json'', ''/index.js'']))],
            lastUpdateFilesSize = 0,
            fetched = [(''/node_modules/foo/package.json'',
                        ''https://cdn.jsdelivr.net/npm/foo/package.json'')],
            drains = [Failed SyntaxError, Failed SyntaxError], answers = [] \<rparr>"
  from assms have r: "hostRun jsdelivr ?m evs = Some h"
    by (simp only: hostRun_append malformed_run option.case)
  have "answers h = answers ?m"
    by (rule rejected_blocks_run[OF r, of 1 SyntaxError]) simp_all
  then show ?thesis by simp
qed

text \<open>
  Claim C5 fails on the code. The file \<^verbatim>\<open>/node_modules/@types/foo/index.d.ts\<close> is read, the
  manifest of \<^verbatim>\<open>foo\<close> is fetched and is not JSON. \<^verbatim>\<open>JSON.parse\<close> (line 315) throws inside
  \<^verbatim>\<open>fetchFile\<close>, so the promise of the types file is rejected with the syntax error: the
  file is not fetched, and both calls of \<^verbatim>\<open>getVersion\<close>, the one pending and the one made
  afterwards, are rejected with that error, which the proxy passes to its caller
  (lines 60, 62, 81).
\<close>

theorem malformed_manifest_rejects:
  "map_of (files (the (hostRun jsdelivr emptyHost malformed_trace)))
     ''/node_modules/foo/package.json'' = Some (Fulfilled (Some ''<html>'')) \<and>
   JSON_parse jsdelivr ''<html>'' = None \<and>
   map_of (files (the (hostRun jsdelivr emptyHost malformed_trace)))
     ''/node_modules/@types/foo/index.d.ts'' = Some (Rejected SyntaxError) \<and>
   drains (the (hostRun jsdelivr emptyHost malformed_trace)) =
     [Failed SyntaxError, Failed SyntaxError] \<and>
   answers (the (hostRun jsdelivr emptyHost malformed_trace)) = []"
  unfolding malformed_run option.sel by code_simp

lemma typed_run:
  "hostRun jsdelivr emptyHost typed_trace =
     Some \<lparr> files = [(''/node_modules/foo/package.json'',
                      Fulfilled (Some ''{\"types\":\"index.d.ts\"}'')),
                     (''/node_modules/@types/foo/index.d.ts'',
                      AwaitManifest ''@types/foo'' ''foo'')],
            flatResult = [(''foo'', Some (Listing [''/package.json'', ''/index.js'']))],
            lastUpdateFilesSize = 0,
            fetched = [(''/node_modules/foo/package.json'',
                        ''https://cdn.jsdelivr.net/npm/foo/package.json'')],
            drains = [], answers = [] \<rparr>"
  by code_simp

text \<open>
  Claim C6, as amended. For a host with a listing function, in every reachable state in
  which the manifest of the original package was read and declares \<^verbatim>\<open>types\<close> or \<^verbatim>\<open>typings\<close>,
  or was read without them while \<^verbatim>\<open>index.d.ts\<close> of the package was read and is not empty:
  no request was made for a file of the types package, and if the file has an entry, the
  entry is, after at most two resumptions of its \<^verbatim>\<open>fetchFile\<close> and without any request,
  fulfilled with \<^verbatim>\<open>undefined\<close>.
\<close>

theorem redundant_shim_is_absent:
  assumes "hostRun e emptyHost evs = Some h"
    and "flat e"
    and "pkgNameOf fileName = Some pkgName" "startsWith pkgName ''@types/''"
    and "redundant e h (originalPkgNameOf pkgName)"
  shows "fileName \<notin> fst ` set (fetched h) \<and>
         (\<forall>t. map_of (files h) fileName = Some t \<longrightarrow>
            (\<exists>n\<le>2. \<exists>h'. hostRun e h (replicate n (Resume fileName)) = Some h' \<and>
                map_of (files h') fileName = Some (Fulfilled None) \<and>
                fetched h' = fetched h))"
proof -
  from shim_ok_run[OF shim_ok_empty assms(1)] have ok: "shim_ok e h" .
  note n = shim_not_requested[OF ok assms(2-5)]
  have "\<exists>n\<le>2. \<exists>h'. hostRun e h (replicate n (Resume fileName)) = Some h' \<and>
                map_of (files h') fileName = Some (Fulfilled None) \<and>
                fetched h' = fetched h"
    if t: "map_of (files h) fileName = Some t" for t
    by (rule shim_settles_absent[OF t n(2)[OF t] assms(5)])
  with n(1) show ?thesis by blast
qed

text \<open>
  Claim C6, witness: \<^verbatim>\<open>@types/foo\<close> is read, the manifest of \<^verbatim>\<open>foo\<close> is fetched and
  declares \<^verbatim>\<open>types\<close>.
\<close>

theorem redundant_shim_is_absent_witness:
  "redundant jsdelivr (the (hostRun jsdelivr emptyHost typed_trace))
     (originalPkgNameOf ''@types/foo'') \<and>
   ''/node_modules/@types/foo/index.d.ts'' \<notin>
     fst ` set (fetched (the (hostRun jsdelivr emptyHost typed_trace))) \<and>
   (\<exists>n\<le>2. \<exists>h'.
      hostRun jsdelivr (the (hostRun jsdelivr emptyHost typed_trace))
        (replicate n (Resume ''/node_modules/@types/foo/index.d.ts'')) = Some h' \<and>
      map_of (files h') ''/node_modules/@types/foo/index.d.ts'' = Some (Fulfilled None) \<and>
      fetched h' = fetched (the (hostRun jsdelivr emptyHost typed_trace)))"
proof -
  have a: "hostRun jsdelivr emptyHost typed_trace =
           Some (the (hostRun jsdelivr emptyHost typed_trace))"
    by (simp add: typed_run)
  have b: "flat jsdelivr" by (simp add: jsdelivr_def)
  have c: "pkgNameOf ''/node_modules/@types/foo/index.d.ts'' = Some ''@types/foo''"
    by code_simp
  have d: "startsWith ''@types/foo'' ''@types/''" by code_simp
  have e: "redundant jsdelivr (the (hostRun jsdelivr emptyHost typed_trace))
             (originalPkgNameOf ''@types/foo'')"
    unfolding typed_run option.sel by code_simp
  have f: "map_of (files (the (hostRun jsdelivr emptyHost typed_trace)))
             ''/node_modules/@types/foo/index.d.ts'' = Some (AwaitManifest ''@types/foo'' ''foo'')"
    unfolding typed_run option.sel by code_simp
  from redundant_shim_is_absent[OF a b c d e] e f show ?thesis by blast
qed

text \<open>
  Claim C6 as stated fails, in three ways. The check is made inside \<^verbatim>\<open>if (this.flat)\<close>
  (line 294): a host made without listing function has read the manifest of \<^verbatim>\<open>foo\<close>, which
  declares \<^verbatim>\<open>types\<close>; the file of \<^verbatim>\<open>@types/foo\<close> is then read and is requested from the CDN.
  The file \<^verbatim>\<open>index.d.ts\<close> is looked at inside \<^verbatim>\<open>if (packageJson)\<close> (line 314): \<^verbatim>\<open>foo\<close> ships
  \<^verbatim>\<open>index.d.ts\<close>, but the request for its manifest fails, and the file of \<^verbatim>\<open>@types/foo\<close> is
  requested. And line 316 tests the value of the field: the manifest of \<^verbatim>\<open>foo\<close> declares
  \<^verbatim>\<open>types\<close> as the empty text, and the file of \<^verbatim>\<open>@types/foo\<close> is requested.
\<close>

theorem redundant_shim_is_fetched:
  "\<not> flat unlisted \<and>
   pkgNameOf ''/node_modules/@types/foo/index.d.ts'' = Some ''@types/foo'' \<and>
   originalPkgNameOf ''@types/foo'' = ''foo'' \<and>
   hostRun unlisted emptyHost unlisted_trace \<noteq> None \<and>
   declaresTypes unlisted (the (hostRun unlisted emptyHost unlisted_trace)) ''foo'' \<and>
   map_of (fetched (the (hostRun unlisted emptyHost unlisted_trace)))
     ''/node_modules/@types/foo/index.d.ts'' = Some ''https://cdn.example/@types/foo/index.d.ts'' \<and>
   flat jsdelivr \<and>
   hostRun jsdelivr emptyHost missing_manifest_trace \<noteq> None \<and>
   awaitFile (the (hostRun jsdelivr emptyHost missing_manifest_trace))
     ''/node_modules/foo/index.d.ts'' = Gave (Some ''export {}'') \<and>
   map_of (fetched (the (hostRun jsdelivr emptyHost missing_manifest_trace)))
     ''/node_modules/@types/foo/index.d.ts'' =
     Some ''https://cdn.jsdelivr.net/npm/@types/foo/index.d.ts'' \<and>
   hostRun jsdelivr emptyHost empty_types_trace \<noteq> None \<and>
   awaitFile (the (hostRun jsdelivr emptyHost empty_types_trace))
     ''/node_modules/foo/package.json'' = Gave (Some ''{\"types\":\"\"}'') \<and>
   JSON_parse jsdelivr ''{\"types\":\"\"}'' = Some (JObject [(''types'', JString [])]) \<and>
   map_of (fetched (the (hostRun jsdelivr emptyHost empty_types_trace)))
     ''/node_modules/@types/foo/index.d.ts'' =
     Some ''https://cdn.jsdelivr.net/npm/@types/foo/index.d.ts''"
  by code_simp

end
